theory Spec2Isabelle
  imports Main "HOL-Library.Sublist" "HOL-Library.AList" "HOL-Library.Product_Lexorder"
begin

section \<open>Python values used by nifgen\<close>

text \<open>
  The generator is Python. Its strings are modelled as \<open>string\<close> and read as ASCII text:
  the character classes below (\<open>is_digit\<close>, \<open>is_space\<close>, \<open>lower_chr\<close>, ...) follow Python
  on the ASCII range. Exceptions are values of \<open>error\<close>; a function that can raise returns
  \<open>error + 'a\<close> with \<open>Inl\<close> for the exception.
\<close>

datatype error = ValueError | KeyError | IndexError | AttributeError | TypeError

type_synonym attrib = "string \<rightharpoonup> string"

definition is_digit :: "char \<Rightarrow> bool" where
  "is_digit c = (c \<in> set ''0123456789'')"

definition is_space :: "char \<Rightarrow> bool" where
  \<comment> \<open>the characters \<open>int()\<close> skips around a literal: space, \<open>\t \n \v \f \r\<close>\<close>
  "is_space c = (c \<in> set [CHR '' '', CHR 0x09, CHR 0x0A, CHR 0x0B, CHR 0x0C, CHR 0x0D])"

definition digit_val :: "char \<Rightarrow> int" where
  "digit_val c = int (of_char c) - 48"

text \<open>\<open>str.split(sep)\<close> for a one-character separator: every occurrence cuts, so the
  result has one more part than there are separators and is never empty.\<close>

fun split_acc :: "char \<Rightarrow> string \<Rightarrow> string \<Rightarrow> string list" where
  "split_acc sep acc [] = [rev acc]"
| "split_acc sep acc (c # cs) =
     (if c = sep then rev acc # split_acc sep [] cs else split_acc sep (c # acc) cs)"

definition split :: "string \<Rightarrow> char \<Rightarrow> string list" where
  "split s sep = split_acc sep [] s"

definition lstrip :: "string \<Rightarrow> char \<Rightarrow> string" where
  "lstrip s c = dropWhile (\<lambda>x. x = c) s"

definition startswith :: "string \<Rightarrow> string \<Rightarrow> bool" where
  "startswith s p = prefix p s"

definition contains :: "string \<Rightarrow> string \<Rightarrow> bool" where
  \<comment> \<open>\<open>sub in s\<close>\<close>
  "contains sub s = sublist sub s"

text \<open>\<open>int(s)\<close> on a string: blanks around the literal are skipped, one sign is allowed,
  and the digits may be grouped by single underscores that stand between two digits.
  Anything else raises \<open>ValueError\<close>. (The interpreter's configurable limit on the number
  of digits is not part of the model.)\<close>

fun scan_digits :: "char \<Rightarrow> string \<Rightarrow> bool" where
  "scan_digits prev [] = (prev \<noteq> CHR ''_'')"
| "scan_digits prev (c # cs) =
     (if c = CHR ''_'' then prev \<noteq> CHR ''_'' \<and> scan_digits c cs
      else is_digit c \<and> scan_digits c cs)"

definition digits_ok :: "string \<Rightarrow> bool" where
  "digits_ok s = (case s of [] \<Rightarrow> False | c # cs \<Rightarrow> is_digit c \<and> scan_digits c cs)"

definition digits_value :: "string \<Rightarrow> int" where
  "digits_value s = foldl (\<lambda>a c. if c = CHR ''_'' then a else 10 * a + digit_val c) 0 s"

definition py_int :: "string \<Rightarrow> error + int" where
  "py_int s =
     (let t = rev (dropWhile is_space (rev (dropWhile is_space s)));
          (neg, body) = (case t of
                           [] \<Rightarrow> (False, [])
                         | c # cs \<Rightarrow> if c = CHR ''-'' then (True, cs)
                                     else if c = CHR ''+'' then (False, cs)
                                     else (False, t))
      in if digits_ok body then Inr (if neg then - digits_value body else digits_value body)
         else Inl ValueError)"

fun map_result :: "('a \<Rightarrow> error + 'b) \<Rightarrow> 'a list \<Rightarrow> error + 'b list" where
  "map_result f [] = Inr []"
| "map_result f (x # xs) =
     (case f x of
        Inl e \<Rightarrow> Inl e
      | Inr y \<Rightarrow> (case map_result f xs of Inl e \<Rightarrow> Inl e | Inr ys \<Rightarrow> Inr (y # ys)))"

text \<open>\<open>any(f(x) for x in xs)\<close>: the generator is consumed from the left and stops at the
  first true element; an exception raised by an element that is reached aborts it.\<close>

fun any_result :: "('a \<Rightarrow> error + bool) \<Rightarrow> 'a list \<Rightarrow> error + bool" where
  "any_result f [] = Inr False"
| "any_result f (x # xs) =
     (case f x of
        Inl e \<Rightarrow> Inl e
      | Inr b \<Rightarrow> if b then Inr True else any_result f xs)"

section \<open>Target versions (\<open>nifgen/__init__.py\<close>)\<close>

record VersionInfo =
  major :: int
  minor :: int
  micro :: int
  patch :: int

definition mk_version :: "int \<Rightarrow> int \<Rightarrow> int \<Rightarrow> int \<Rightarrow> VersionInfo" where
  "mk_version a b c d = \<lparr>major = a, minor = b, micro = c, patch = d\<rparr>"

definition TARGET_VERSIONS :: "VersionInfo list" where
  "TARGET_VERSIONS =
     [mk_version 20 1 0 3, mk_version 20 2 0 7, mk_version 20 2 0 8,
      mk_version 20 3 0 9, mk_version 20 6 0 0]"

section \<open>Version predicates (\<open>nifgen/predicates.py\<close>)\<close>

definition BETHESDA_MODULES :: "string list" where
  "BETHESDA_MODULES = [''BSMain'', ''BSAnimation'', ''BSParticle'', ''BSHavok'', ''BSLegacy'']"

definition EXCLUDED_NAMES :: "string list" where
  "EXCLUDED_NAMES = [''RendererID'', ''BoneTransform'']"

datatype VersionRelation = LOWER | EXACT | HIGHER

definition split_version_string :: "string \<Rightarrow> string list" where
  "split_version_string s =
     (let parts = (if CHR ''.'' \<in> set s then split s (CHR ''.'') else split s (CHR ''_''))
      in case parts of
           [] \<Rightarrow> []
         | p # ps \<Rightarrow> lstrip p (CHR ''V'') # ps)"

definition part_get :: "int list \<Rightarrow> nat \<Rightarrow> int" where
  \<comment> \<open>\<open>parts.get(idx, 0)\<close> on the dictionary built by \<open>enumerate\<close>\<close>
  "part_get ps idx = (if idx < length ps then ps ! idx else 0)"

definition compare_parts :: "VersionInfo \<Rightarrow> int list \<Rightarrow> VersionRelation" where
  "compare_parts version ps =
     (let major' = part_get ps 0; minor' = part_get ps 1;
          micro' = part_get ps 2; patch' = part_get ps 3
      in if major' < major version then LOWER
         else if major' > major version then HIGHER
         else if minor' < minor version then LOWER
         else if minor' > minor version then HIGHER
         else if micro' < micro version then LOWER
         else if micro' > micro version then HIGHER
         else if patch' < patch version then LOWER
         else if patch' > patch version then HIGHER
         else EXACT)"

definition check_version :: "VersionInfo \<Rightarrow> string \<Rightarrow> error + VersionRelation" where
  "check_version version s =
     (case map_result py_int (split_version_string s) of
        Inl e \<Rightarrow> Inl e
      | Inr ps \<Rightarrow> Inr (compare_parts version ps))"

definition lower_chr :: "char \<Rightarrow> char" where
  "lower_chr c =
     (case map_of (zip ''ABCDEFGHIJKLMNOPQRSTUVWXYZ'' ''abcdefghijklmnopqrstuvwxyz'') c of
        Some l \<Rightarrow> l
      | None \<Rightarrow> c)"

definition lower :: "string \<Rightarrow> string" where
  "lower s = map lower_chr s"

text \<open>The helper nested in \<open>should_emit_struct\<close>. Its \<open>versions\<close> branch is kept as the
  source has it, although \<open>should_emit_struct\<close> returns before any call when \<open>versions\<close>
  is present.\<close>

definition struct_check_target_version :: "attrib \<Rightarrow> VersionInfo \<Rightarrow> error + bool" where
  "struct_check_target_version a version =
     (case (a ''since'', a ''versions'') of
        (Some since, None) \<Rightarrow>
          (case check_version version since of
             Inl e \<Rightarrow> Inl e
           | Inr r \<Rightarrow>
               (let x = (r \<noteq> HIGHER) in
                case a ''until'' of
                  None \<Rightarrow> Inr x
                | Some until \<Rightarrow>
                    if x then
                      (case check_version version until of
                         Inl e \<Rightarrow> Inl e
                       | Inr r' \<Rightarrow> Inr (r' \<noteq> HIGHER))
                    else Inr False))
      | (_, Some versions) \<Rightarrow>
          if \<not> startswith versions ''#'' then
            any_result
              (\<lambda>ver. case check_version version ver of
                        Inl e \<Rightarrow> Inl e
                      | Inr r \<Rightarrow> Inr (r = EXACT))
              (split versions (CHR '' ''))
          else Inr True
      | (None, None) \<Rightarrow> Inr True)"

definition should_emit_struct :: "attrib \<Rightarrow> error + bool" where
  "should_emit_struct a =
     (if a ''versions'' \<noteq> None then Inr False
      else if (case a ''module'' of Some m \<Rightarrow> m \<in> set BETHESDA_MODULES | None \<Rightarrow> False)
        then Inr False
      else if (case a ''name'' of Some n \<Rightarrow> n \<in> set EXCLUDED_NAMES | None \<Rightarrow> False)
        then Inr False
      else if (case a ''name'' of Some n \<Rightarrow> contains ''physx'' (lower n) | None \<Rightarrow> False)
        then Inr False
      else if (case a ''name'' of Some n \<Rightarrow> startswith n ''bhk'' | None \<Rightarrow> False)
        then Inr False
      else any_result (struct_check_target_version a) TARGET_VERSIONS)"

text \<open>The helper nested in \<open>should_emit_member\<close>: \<open>ver2\<close> is only parsed when \<open>ver1\<close> did
  not already reject the target.\<close>

definition member_check_target_version :: "attrib \<Rightarrow> VersionInfo \<Rightarrow> error + bool" where
  "member_check_target_version a version =
     (case (case a ''ver1'' of
              None \<Rightarrow> Inr False
            | Some ver1 \<Rightarrow>
                (case check_version version ver1 of
                   Inl e \<Rightarrow> Inl e
                 | Inr r \<Rightarrow> Inr (r = HIGHER))) of
        Inl e \<Rightarrow> Inl e
      | Inr rejected1 \<Rightarrow>
          if rejected1 then Inr False
          else
            (case a ''ver2'' of
               None \<Rightarrow> Inr True
             | Some ver2 \<Rightarrow>
                 (case check_version version ver2 of
                    Inl e \<Rightarrow> Inl e
                  | Inr r \<Rightarrow> if r = LOWER then Inr False else Inr True)))"

definition vercond_allowed :: "string \<Rightarrow> bool" where
  "vercond_allowed vercond =
     (\<not> (vercond \<noteq> ''#NISTREAM#'' \<and> \<not> startswith vercond ''!''
         \<and> \<not> startswith vercond ''#NI'' \<and> \<not> startswith vercond ''#BSVER# #LT''))"

definition should_emit_member :: "attrib \<Rightarrow> error + bool" where
  "should_emit_member a =
     (case any_result (member_check_target_version a) TARGET_VERSIONS of
        Inl e \<Rightarrow> Inl e
      | Inr ok \<Rightarrow>
          if \<not> ok then Inr False
          else if (case a ''vercond'' of Some vercond \<Rightarrow> \<not> vercond_allowed vercond | None \<Rightarrow> False)
            then Inr False
          else if a ''cond'' = Some ''#BSSTREAMHEADER#'' then Inr False
          else Inr True)"

section \<open>Name conversion (\<open>nifgen/types.py\<close>)\<close>

definition RUST_KEYWORDS :: "string list" where
  "RUST_KEYWORDS =
     [''as'', ''break'', ''const'', ''continue'', ''crate'', ''else'', ''enum'', ''extern'',
      ''false'', ''fn'', ''for'', ''if'', ''impl'', ''in'', ''let'', ''loop'', ''match'', ''mod'',
      ''move'', ''mut'', ''pub'', ''ref'', ''return'', ''self'', ''Self'', ''static'', ''struct'',
      ''super'', ''trait'', ''true'', ''type'', ''unsafe'', ''use'', ''where'', ''while'', ''async'',
      ''await'', ''dyn'', ''abstract'', ''become'', ''box'', ''do'', ''final'', ''macro'',
      ''override'', ''priv'', ''typeof'', ''unsized'', ''virtual'', ''yield'', ''try'']"

fun join :: "string \<Rightarrow> string list \<Rightarrow> string" where
  "join sep [] = []"
| "join sep [x] = x"
| "join sep (x # y # ys) = x @ sep @ join sep (y # ys)"

definition replace_chr :: "string \<Rightarrow> char \<Rightarrow> string \<Rightarrow> string" where
  \<comment> \<open>\<open>s.replace(old, new)\<close> for a one-character \<open>old\<close>\<close>
  "replace_chr s old new = concat (map (\<lambda>c. if c = old then new else [c]) s)"

definition convert_field_name :: "string \<Rightarrow> string" where
  "convert_field_name name =
     (if name = ''#ARG#'' then ''arg''
      else if CHR ''.'' \<in> set name then
        ''FileVersion('' @ join '', '' (split name (CHR ''.'')) @ '')''
      else
        (let name' = replace_chr (replace_chr (lower name) (CHR '' '') ''_'') (CHR '':'') []
         in if name' \<in> set RUST_KEYWORDS then ''r#'' @ name' else name'))"

section \<open>Regular expressions of \<open>nifgen/expr.py\<close>\<close>

text \<open>
  The three patterns use literals, \<open>.\<close>, \<open>\w\<close>, \<open>\W\<close>, greedy stars of one character
  class, alternation and numbered groups. \<open>matches r s c\<close> lists, in the order a
  backtracking matcher tries them, every way \<open>r\<close> can match a prefix of \<open>s\<close>: the groups
  captured so far and the text left over. The head of the list is the match Python's
  \<open>re\<close> reports.
\<close>

datatype cls = Dot | Word | NonWord | Lit char

datatype re = Chr cls | Star cls | Seq re re | Alt re re | Group nat re

type_synonym caps = "nat \<rightharpoonup> string"

definition is_word :: "char \<Rightarrow> bool" where
  "is_word c =
     (c \<in> set ''abcdefghijklmnopqrstuvwxyzABCDEFGHIJKLMNOPQRSTUVWXYZ0123456789_'')"

fun in_cls :: "cls \<Rightarrow> char \<Rightarrow> bool" where
  "in_cls Dot c = (c \<noteq> CHR 0x0A)"
| "in_cls Word c = is_word c"
| "in_cls NonWord c = (\<not> is_word c)"
| "in_cls (Lit l) c = (c = l)"

fun matches :: "re \<Rightarrow> string \<Rightarrow> caps \<Rightarrow> (caps \<times> string) list" where
  "matches (Chr k) [] c = []"
| "matches (Chr k) (x # xs) c = (if in_cls k x then [(c, xs)] else [])"
| "matches (Star k) [] c = [(c, [])]"
| "matches (Star k) (x # xs) c =
     (if in_cls k x then matches (Star k) xs c @ [(c, x # xs)] else [(c, x # xs)])"
| "matches (Seq r1 r2) s c = concat (map (\<lambda>(c', s'). matches r2 s' c') (matches r1 s c))"
| "matches (Alt r1 r2) s c = matches r1 s c @ matches r2 s c"
| "matches (Group n r) s c =
     map (\<lambda>(c', s'). (c'(n \<mapsto> take (length s - length s') s), s')) (matches r s c)"

text \<open>\<open>pattern.search(s)\<close>: the leftmost start position that has a match wins.\<close>

fun search :: "re \<Rightarrow> string \<Rightarrow> caps option" where
  "search r [] = (case matches r [] Map.empty of [] \<Rightarrow> None | (c, _) # _ \<Rightarrow> Some c)"
| "search r (x # xs) =
     (case matches r (x # xs) Map.empty of [] \<Rightarrow> search r xs | (c, _) # _ \<Rightarrow> Some c)"

fun seqs :: "re \<Rightarrow> re list \<Rightarrow> re" where
  "seqs r [] = r"
| "seqs r (r' # rs) = Seq r (seqs r' rs)"

definition OP_RE :: re where
  \<comment> \<open>\<open>\W\w*\W|\W*\<close>\<close>
  "OP_RE = Alt (seqs (Chr NonWord) [Star Word, Chr NonWord]) (Star NonWord)"

definition EXPR_RE_1 :: re where
  \<comment> \<open>\<open>(.*)\((.*)\) (\W\w*\W|\W*) \((.*)\)\<close>\<close>
  "EXPR_RE_1 =
     seqs (Group 1 (Star Dot))
       [Chr (Lit (CHR ''('')), Group 2 (Star Dot), Chr (Lit (CHR '')'')),
        Chr (Lit (CHR '' '')), Group 3 OP_RE, Chr (Lit (CHR '' '')),
        Chr (Lit (CHR ''('')), Group 4 (Star Dot), Chr (Lit (CHR '')''))]"

definition EXPR_RE_2 :: re where
  \<comment> \<open>\<open>(.*)\((.*) (\W\w*\W|\W*) (.*)\)\<close>\<close>
  "EXPR_RE_2 =
     seqs (Group 1 (Star Dot))
       [Chr (Lit (CHR ''('')), Group 2 (Star Dot),
        Chr (Lit (CHR '' '')), Group 3 OP_RE, Chr (Lit (CHR '' '')),
        Group 4 (Star Dot), Chr (Lit (CHR '')''))]"

definition EXPR_RE_3 :: re where
  \<comment> \<open>\<open>(.*) (\W\w*\W|\W*) (.*)\<close>\<close>
  "EXPR_RE_3 =
     seqs (Group 1 (Star Dot))
       [Chr (Lit (CHR '' '')), Group 2 OP_RE, Chr (Lit (CHR '' '')), Group 3 (Star Dot)]"

text \<open>Every match leaves at most the text it was given, and a group it captures is
  shorter than the matched text by at least the characters the pattern demands outside
  of groups (\<open>outside\<close>). The recursion of \<open>parse_expression\<close> terminates for this reason.\<close>

fun outside :: "re \<Rightarrow> nat" where
  "outside (Chr k) = 1"
| "outside (Star k) = 0"
| "outside (Seq r1 r2) = outside r1 + outside r2"
| "outside (Alt r1 r2) = min (outside r1) (outside r2)"
| "outside (Group n r) = 0"

lemma matches_star_bound:
  "(c', s') \<in> set (matches (Star k) s c) \<Longrightarrow> c' = c \<and> length s' \<le> length s"
  by (induction s) (auto split: if_splits)

lemma matches_bound:
  "(c', s') \<in> set (matches r s c) \<Longrightarrow>
     length s' + outside r \<le> length s \<and>
     (\<forall>i g. c' i = Some g \<longrightarrow> c i = Some g \<or> length g + outside r + length s' \<le> length s)"
proof (induction r arbitrary: s c c' s')
  case (Chr k)
  then show ?case by (cases s) (auto split: if_splits)
next
  case (Star k)
  then show ?case using matches_star_bound [of c' s' k s c] by auto
next
  case (Seq r1 r2)
  from Seq.prems obtain c1 s1
    where m1: "(c1, s1) \<in> set (matches r1 s c)" and m2: "(c', s') \<in> set (matches r2 s1 c1)"
    by auto
  note b1 = Seq.IH(1) [OF m1] and b2 = Seq.IH(2) [OF m2]
  have len: "length s' + outside (Seq r1 r2) \<le> length s"
    using b1 b2 by simp
  have "c i = Some g \<or> length g + outside (Seq r1 r2) + length s' \<le> length s"
    if g: "c' i = Some g" for i g
  proof -
    from b2 g have "c1 i = Some g \<or> length g + outside r2 + length s' \<le> length s1"
      by blast
    then show ?thesis
    proof
      assume "c1 i = Some g"
      with b1 have "c i = Some g \<or> length g + outside r1 + length s1 \<le> length s"
        by blast
      then show ?thesis using b2 by auto
    next
      assume "length g + outside r2 + length s' \<le> length s1"
      then show ?thesis using b1 by simp
    qed
  qed
  with len show ?case by blast
next
  case (Alt r1 r2)
  from Alt.prems have "(c', s') \<in> set (matches r1 s c) \<or> (c', s') \<in> set (matches r2 s c)"
    by simp
  then show ?case
  proof
    assume m: "(c', s') \<in> set (matches r1 s c)"
    have "outside (Alt r1 r2) \<le> outside r1" by simp
    with Alt.IH(1) [OF m] show ?thesis by (meson add_le_mono le_refl le_trans)
  next
    assume m: "(c', s') \<in> set (matches r2 s c)"
    have "outside (Alt r1 r2) \<le> outside r2" by simp
    with Alt.IH(2) [OF m] show ?thesis by (meson add_le_mono le_refl le_trans)
  qed
next
  case (Group n r)
  from Group.prems obtain c0
    where m: "(c0, s') \<in> set (matches r s c)"
      and c': "c' = c0(n \<mapsto> take (length s - length s') s)"
    by auto
  note b = Group.IH [OF m]
  show ?case
  proof (intro conjI allI impI)
    show "length s' + outside (Group n r) \<le> length s"
      using b by simp
  next
    fix i g
    assume g: "c' i = Some g"
    show "c i = Some g \<or> length g + outside (Group n r) + length s' \<le> length s"
    proof (cases "i = n")
      case True
      with g c' have "g = take (length s - length s') s" by simp
      then show ?thesis using b by simp
    next
      case False
      with g c' have "c0 i = Some g" by simp
      with b have "c i = Some g \<or> length g + outside r + length s' \<le> length s"
        by blast
      then show ?thesis by auto
    qed
  qed
qed

lemma search_bound:
  "search r s = Some c \<Longrightarrow> c i = Some g \<Longrightarrow> length g + outside r \<le> length s"
proof (induction s)
  case Nil
  then obtain s' where "(c, s') \<in> set (matches r [] Map.empty)"
    by (auto split: list.splits)
  from matches_bound [OF this] Nil(2) show ?case by fastforce
next
  case (Cons x xs)
  show ?case
  proof (cases "matches r (x # xs) Map.empty")
    case Nil
    with Cons show ?thesis by simp
  next
    case (Cons p ps)
    with Cons.prems obtain s' where "(c, s') \<in> set (matches r (x # xs) Map.empty)"
      by (cases p) auto
    from matches_bound [OF this] Cons.prems(2) show ?thesis by fastforce
  qed
qed

section \<open>The expression parser (\<open>nifgen/expr.py\<close>)\<close>

definition OPERATORS :: "(string \<times> string) list" where
  "OPERATORS =
     [(''#ADD#'', ''+''), (''#SUB#'', ''-''), (''#MUL#'', ''*''), (''#DIV#'', ''/''),
      (''#AND#'', ''&&''), (''#OR#'', ''||''), (''#LT#'', ''<''), (''#GT#'', ''>''),
      (''#LTE#'', ''<=''), (''#GTE#'', ''>=''), (''#EQ#'', ''==''), (''#NEQ#'', ''!=''),
      (''#RSH#'', ''>>''), (''#LSH#'', ''<<''), (''#BITAND#'', ''&''), (''#BITOR#'', ''|'')]"

definition contains_any_operator :: "string \<Rightarrow> bool" where
  "contains_any_operator s = list_ex (\<lambda>(k, v). contains k s \<or> contains v s) OPERATORS"

definition is_py_space :: "char \<Rightarrow> bool" where
  \<comment> \<open>\<open>str.isspace\<close> on ASCII: what \<open>lstrip()\<close> and \<open>rstrip()\<close> remove\<close>
  "is_py_space c =
     (c \<in> set [CHR '' '', CHR 0x09, CHR 0x0A, CHR 0x0B, CHR 0x0C, CHR 0x0D,
               CHR 0x1C, CHR 0x1D, CHR 0x1E, CHR 0x1F])"

definition strip :: "string \<Rightarrow> string" where
  \<comment> \<open>\<open>s.lstrip().rstrip()\<close>\<close>
  "strip s = rev (dropWhile is_py_space (rev (dropWhile is_py_space s)))"

definition isnumeric :: "string \<Rightarrow> bool" where
  "isnumeric s = (s \<noteq> [] \<and> list_all is_digit s)"

definition operators_get :: "string \<Rightarrow> string" where
  \<comment> \<open>\<open>OPERATORS.get(op, op)\<close>\<close>
  "operators_get op = (case map_of OPERATORS op of Some v \<Rightarrow> v | None \<Rightarrow> op)"

definition paren_if_spaced :: "string \<Rightarrow> string" where
  "paren_if_spaced e =
     (if CHR '' '' \<in> set e \<and> \<not> startswith e ''FileVersion'' then ''('' @ e @ '')'' else e)"

text \<open>The outcome of the three \<open>search\<close> attempts: the groups the code goes on to read.
  For the first two patterns these are groups 1 (the unary prefix), 2, 3 and 4; for
  the third, which has no unary prefix, groups 1, 2 and 3. A group that took no part in
  the match reads as \<open>None\<close>.\<close>

record shape =
  unary :: "string option"
  left :: "string option"
  oper :: "string option"
  right :: "string option"

definition find_shape :: "string \<Rightarrow> shape option" where
  "find_shape expr =
     (case search EXPR_RE_1 expr of
        Some m \<Rightarrow> Some \<lparr>unary = m 1, left = m 2, oper = m 3, right = m 4\<rparr>
      | None \<Rightarrow>
          (case search EXPR_RE_2 expr of
             Some m \<Rightarrow> Some \<lparr>unary = m 1, left = m 2, oper = m 3, right = m 4\<rparr>
           | None \<Rightarrow>
               (case search EXPR_RE_3 expr of
                  Some m \<Rightarrow> Some \<lparr>unary = None, left = m 1, oper = m 2, right = m 3\<rparr>
                | None \<Rightarrow> None)))"

lemma find_shape_shorter:
  assumes "find_shape expr = Some sh"
  shows "left sh = Some a \<Longrightarrow> length a < length expr"
    and "right sh = Some b \<Longrightarrow> length b < length expr"
proof -
  have o: "0 < outside EXPR_RE_1" "0 < outside EXPR_RE_2" "0 < outside EXPR_RE_3"
    by (simp_all add: EXPR_RE_1_def EXPR_RE_2_def EXPR_RE_3_def)
  have "\<exists>r m. search r expr = Some m \<and> 0 < outside r \<and>
          (\<exists>i j. left sh = m i \<and> right sh = m j)"
    using assms o unfolding find_shape_def by (auto split: option.splits) blast+
  then obtain r m i j where m: "search r expr = Some m" "0 < outside r"
    "left sh = m i" "right sh = m j"
    by blast
  show "left sh = Some a \<Longrightarrow> length a < length expr"
    using search_bound [OF m(1), of i a] m(2,3) by simp
  show "right sh = Some b \<Longrightarrow> length b < length expr"
    using search_bound [OF m(1), of j b] m(2,4) by simp
qed

text \<open>\<open>parse_expression\<close>. Reading a group of a failed search raises \<open>AttributeError\<close>
  (\<open>result\<close> is \<open>None\<close>); a \<open>None\<close> operand would raise \<open>TypeError\<close> at the membership test
  of the recursive call, a \<open>None\<close> operator \<open>AttributeError\<close> at \<open>op.lstrip()\<close>.\<close>

function parse_expression :: "string \<Rightarrow> error + string" where
  "parse_expression expr =
     (if CHR ''('' \<in> set expr \<or> CHR '')'' \<in> set expr \<or> contains_any_operator expr then
        (case find_shape expr of
           None \<Rightarrow> Inl AttributeError
         | Some sh \<Rightarrow>
             (case left sh of
                None \<Rightarrow> Inl TypeError
              | Some a \<Rightarrow>
                  (case parse_expression a of
                     Inl e \<Rightarrow> Inl e
                   | Inr expr1 \<Rightarrow>
                       (case oper sh of
                          None \<Rightarrow> Inl AttributeError
                        | Some op \<Rightarrow>
                            if strip op = ''|'' then Inr (paren_if_spaced expr1)
                            else
                              (case right sh of
                                 None \<Rightarrow> Inl TypeError
                               | Some b \<Rightarrow>
                                   (case parse_expression b of
                                      Inl e \<Rightarrow> Inl e
                                    | Inr expr2 \<Rightarrow>
                                        (let res = paren_if_spaced expr1 @ '' '' @ operators_get op
                                                   @ '' '' @ paren_if_spaced expr2
                                         in case unary sh of
                                              None \<Rightarrow> Inr res
                                            | Some u \<Rightarrow>
                                                if u \<noteq> [] then Inr (u @ ''('' @ res @ '')'')
                                                else Inr res)))))))
      else if \<not> isnumeric expr then Inr (convert_field_name expr)
      else Inr expr)"
  by pat_completeness auto
termination
  by (relation "measure length") (auto dest: find_shape_shorter)

text \<open>The equation of \<open>parse_expression\<close> is applied by hand, one call at a time.\<close>

declare parse_expression.simps [simp del]

section \<open>The schema model (\<open>nifgen/types.py\<close>)\<close>

definition BUILTIN_TYPES :: "(string \<times> string) list" where
  "BUILTIN_TYPES =
     [(''uint64'', ''u64''), (''int64'', ''i64''), (''ulittle32'', ''u32''), (''uint'', ''u32''),
      (''int'', ''i32''), (''ushort'', ''u16''), (''short'', ''i16''), (''char'', ''i8''),
      (''byte'', ''u8''), (''bool'', ''bool''), (''float'', ''f32''), (''hfloat'', ''f16''),
      (''string'', ''NiString''), (''#T#'', ''T'')]"

definition upper_chr :: "char \<Rightarrow> char" where
  "upper_chr c =
     (case map_of (zip ''abcdefghijklmnopqrstuvwxyz'' ''ABCDEFGHIJKLMNOPQRSTUVWXYZ'') c of
        Some u \<Rightarrow> u
      | None \<Rightarrow> c)"

definition convert_struct_name :: "string \<Rightarrow> error + string" where
  \<comment> \<open>\<open>name[0].upper() + name[1:]\<close>: indexing the empty string raises\<close>
  "convert_struct_name name =
     (case name of [] \<Rightarrow> Inl IndexError | c # cs \<Rightarrow> Inr (upper_chr c # cs))"

definition convert_variant_name :: "string \<Rightarrow> string" where
  "convert_variant_name name = replace_chr (replace_chr name (CHR '' '') []) (CHR '':'') []"

definition convert_type :: "string option \<Rightarrow> error + string option" where
  \<comment> \<open>the default of \<open>_BUILTIN_TYPES.get\<close> is computed before the lookup\<close>
  "convert_type ty =
     (case ty of
        None \<Rightarrow> Inr None
      | Some t \<Rightarrow>
          (case convert_struct_name t of
             Inl e \<Rightarrow> Inl e
           | Inr d \<Rightarrow> Inr (Some (case map_of BUILTIN_TYPES t of Some b \<Rightarrow> b | None \<Rightarrow> d))))"

definition is_linebreak :: "char \<Rightarrow> bool" where
  "is_linebreak c = (c \<in> set [CHR 0x0A, CHR 0x0B, CHR 0x0C, CHR 0x0D, CHR 0x1C, CHR 0x1D, CHR 0x1E])"

fun splitlines_acc :: "string \<Rightarrow> string \<Rightarrow> string list" where
  "splitlines_acc acc [] = (if acc = [] then [] else [rev acc])"
| "splitlines_acc acc [c] =
     (if is_linebreak c then [rev acc] else [rev (c # acc)])"
| "splitlines_acc acc (c # d # cs) =
     (if c = CHR 0x0D \<and> d = CHR 0x0A then rev acc # splitlines_acc [] cs
      else if is_linebreak c then rev acc # splitlines_acc [] (d # cs)
      else splitlines_acc (c # acc) (d # cs))"

definition format_doc :: "string option \<Rightarrow> string" where
  "format_doc doc =
     (case doc of
        None \<Rightarrow> []
      | Some d \<Rightarrow>
          if d = [] then []
          else concat (map (\<lambda>line. ''/// '' @ strip line @ [CHR 0x0A])
                           (splitlines_acc [] (strip d))))"

record Type =
  ty :: string
  t_arg :: "string option"
  arr1 :: "string option"
  arr2 :: "string option"
  arg :: "string option"
  cond :: "string option"
  ver1 :: "string option"
  ver2 :: "string option"

definition truthy :: "string option \<Rightarrow> bool" where
  \<comment> \<open>Python truth of an optional string: neither \<open>None\<close> nor empty\<close>
  "truthy x = (case x of None \<Rightarrow> False | Some s \<Rightarrow> s \<noteq> [])"

definition py_str :: "string option \<Rightarrow> string" where
  \<comment> \<open>how an f-string formats an optional string\<close>
  "py_str x = (case x of None \<Rightarrow> ''None'' | Some s \<Rightarrow> s)"

definition get_inner_type :: "Type \<Rightarrow> string" where
  "get_inner_type t =
     (if truthy (t_arg t) then ty t @ ''<'' @ py_str (t_arg t) @ ''>'' else ty t)"

definition get_full_type :: "Type \<Rightarrow> string" where
  "get_full_type t =
     (let inner = get_inner_type t in
      case arr1 t of
        None \<Rightarrow> inner
      | Some a1 \<Rightarrow>
          if a1 = [] then inner
          else if isnumeric a1 then
            (let size = (case arr2 t of
                           None \<Rightarrow> a1
                         | Some a2 \<Rightarrow> if a2 \<noteq> [] \<and> isnumeric a2 then a1 @ '' + '' @ a2 else a1)
             in ''['' @ inner @ ''; '' @ size @ '']'')
          else ''Vec<'' @ inner @ ''>'')"

definition is_optional :: "Type \<Rightarrow> bool" where
  "is_optional t = (cond t \<noteq> None)"

definition type_str :: "Type \<Rightarrow> string" where
  \<comment> \<open>\<open>Type.__str__\<close>\<close>
  "type_str t =
     (if is_optional t then ''Option<'' @ get_full_type t @ ''>'' else get_full_type t)"

definition Type_from_xml :: "attrib \<Rightarrow> error + Type" where
  "Type_from_xml a =
     (case a ''type'' of
        None \<Rightarrow> Inl KeyError
      | Some t \<Rightarrow>
          (case convert_type (Some t) of
             Inl e \<Rightarrow> Inl e
           | Inr None \<Rightarrow> Inl TypeError
           | Inr (Some ty') \<Rightarrow>
               (case convert_type (a ''template'') of
                  Inl e \<Rightarrow> Inl e
                | Inr t_arg' \<Rightarrow>
                    Inr \<lparr>ty = ty', t_arg = t_arg', arr1 = a ''arr1'', arr2 = a ''arr2'',
                         arg = a ''arg'', cond = a ''cond'', ver1 = a ''ver1'',
                         ver2 = a ''ver2''\<rparr>)))"

definition matches_type :: "Type \<Rightarrow> Type \<Rightarrow> bool" where
  \<comment> \<open>\<open>Type.matches\<close>\<close>
  "matches_type self other =
     (ty self = ty other \<and> t_arg self = t_arg other \<and> arr1 self = arr1 other
      \<and> arr2 self = arr2 other \<and> arg self = arg other)"

text \<open>A specification entry: its attributes, its text and the attribute dictionaries of
  its child elements, which is all the builders read of them.\<close>

record element =
  attrib :: attrib
  entry_text :: "string option"
  children :: "attrib list"

fun fold_result :: "('s \<Rightarrow> 'a \<Rightarrow> error + 's) \<Rightarrow> 's \<Rightarrow> 'a list \<Rightarrow> error + 's" where
  "fold_result f s [] = Inr s"
| "fold_result f s (x # xs) =
     (case f s x of Inl e \<Rightarrow> Inl e | Inr s' \<Rightarrow> fold_result f s' xs)"

type_synonym fields = "(string \<times> Type) list"

record Compound =
  name :: string
  doc :: string
  generic :: bool
  fields' :: fields

text \<open>The record field \<open>fields'\<close> is the attribute \<open>fields\<close> of the classes.
  One round of the loop of \<open>Compound.from_xml\<close>; \<open>filter\<close> is lazy, so
  \<open>should_emit_member\<close> runs as the loop reaches each child. A dictionary keeps insertion
  order: a new key goes to the end.\<close>

definition compound_step :: "fields \<Rightarrow> attrib \<Rightarrow> error + fields" where
  "compound_step fs field =
     (case should_emit_member field of
        Inl e \<Rightarrow> Inl e
      | Inr emit \<Rightarrow>
          if \<not> emit then Inr fs
          else
            (case field ''name'' of
               None \<Rightarrow> Inl KeyError
             | Some n \<Rightarrow>
                 (let name = convert_field_name n in
                  if map_of fs name \<noteq> None then Inr fs
                  else
                    (case Type_from_xml field of
                       Inl e \<Rightarrow> Inl e
                     | Inr t \<Rightarrow> Inr (fs @ [(name, t)])))))"

definition Compound_from_xml :: "element \<Rightarrow> error + Compound" where
  "Compound_from_xml entry =
     (case attrib entry ''name'' of
        None \<Rightarrow> Inl KeyError
      | Some n \<Rightarrow>
          (case convert_type (Some n) of
             Inl e \<Rightarrow> Inl e
           | Inr None \<Rightarrow> Inl TypeError
           | Inr (Some name') \<Rightarrow>
               (case fold_result compound_step [] (children entry) of
                  Inl e \<Rightarrow> Inl e
                | Inr fs \<Rightarrow>
                    Inr \<lparr>name = name', doc = format_doc (entry_text entry),
                         generic = (attrib entry ''generic'' = Some ''true''),
                         fields' = fs\<rparr>)))"

record NiObject =
  name :: string
  doc :: string
  parent :: string
  fields' :: fields

text \<open>What the loop of \<open>NiObject.from_xml\<close> does with a field once its name and type are
  built. The state is the dictionary \<open>obj.fields\<close> and the lines printed so far.\<close>

definition redeclaration_lines :: "string \<Rightarrow> string \<Rightarrow> Type \<Rightarrow> Type \<Rightarrow> string list" where
  "redeclaration_lines obj_name fname old field =
     [''Redeclaration of field '' @ fname @ '' in '' @ obj_name
        @ '', with incompatible signature:'',
      '' old: '' @ type_str old,
      '' new: '' @ type_str field]"

definition niobject_merge ::
  "string \<Rightarrow> string \<Rightarrow> Type \<Rightarrow> fields \<times> string list \<Rightarrow> fields \<times> string list" where
  "niobject_merge obj_name fname field st =
     (case st of (fs, out) \<Rightarrow>
        (case map_of fs fname of
           Some old \<Rightarrow>
             if \<not> truthy (cond field) \<and> \<not> truthy (cond old) then (fs, out)
             else if \<not> matches_type field old
                     \<and> (obj_name \<noteq> ''NiPalette'' \<or> fname \<noteq> ''palette'')
               then (fs, out @ redeclaration_lines obj_name fname old field)
             else
               (AList.update fname
                  (old\<lparr>cond := Some (''('' @ py_str (cond old) @ '') #OR# (''
                                      @ py_str (cond field) @ '')'')\<rparr>) fs,
                out)
         | None \<Rightarrow>
             (let field' =
                    (if obj_name = ''NiPalette'' \<and> fname = ''palette''
                     then field\<lparr>arr1 := Some ''Num Entries'', cond := None\<rparr>
                     else field)
              in (fs @ [(fname, field')], out))))"

definition niobject_step ::
  "string \<Rightarrow> fields \<times> string list \<Rightarrow> attrib \<Rightarrow> error + fields \<times> string list" where
  "niobject_step obj_name st field =
     (case should_emit_member field of
        Inl e \<Rightarrow> Inl e
      | Inr emit \<Rightarrow>
          if \<not> emit then Inr st
          else
            (case field ''name'' of
               None \<Rightarrow> Inl KeyError
             | Some n \<Rightarrow>
                 (case Type_from_xml field of
                    Inl e \<Rightarrow> Inl e
                  | Inr t \<Rightarrow> Inr (niobject_merge obj_name (convert_field_name n) t st))))"

text \<open>\<open>NiObject.from_xml\<close> returns the object and the lines it printed.\<close>

definition NiObject_from_xml :: "element \<Rightarrow> error + NiObject \<times> string list" where
  "NiObject_from_xml entry =
     (case attrib entry ''name'' of
        None \<Rightarrow> Inl KeyError
      | Some n \<Rightarrow>
          (case convert_struct_name n of
             Inl e \<Rightarrow> Inl e
           | Inr name' \<Rightarrow>
               (case attrib entry ''inherit'' of
                  None \<Rightarrow> Inl KeyError
                | Some inherit \<Rightarrow>
                    (case fold_result (niobject_step name') ([], []) (children entry) of
                       Inl e \<Rightarrow> Inl e
                     | Inr (fs, out) \<Rightarrow>
                         Inr (\<lparr>name = name', doc = format_doc (entry_text entry),
                               parent = inherit, fields' = fs\<rparr>, out)))))"

text \<open>\<open>int(s, 16)\<close>: as \<open>int(s)\<close>, with hexadecimal digits and an optional \<open>0x\<close> prefix
  that may be followed by one underscore.\<close>

definition hex_val :: "char \<Rightarrow> int option" where
  "hex_val c =
     map_of (zip ''0123456789abcdefABCDEF''
               [0, 1, 2, 3, 4, 5, 6, 7, 8, 9, 10, 11, 12, 13, 14, 15, 10, 11, 12, 13, 14, 15]) c"

fun scan_hex :: "char \<Rightarrow> string \<Rightarrow> bool" where
  "scan_hex prev [] = (prev \<noteq> CHR ''_'')"
| "scan_hex prev (c # cs) =
     (if c = CHR ''_'' then prev \<noteq> CHR ''_'' \<and> scan_hex c cs
      else hex_val c \<noteq> None \<and> scan_hex c cs)"

definition hex_value :: "string \<Rightarrow> int" where
  "hex_value s =
     foldl (\<lambda>a c. case hex_val c of None \<Rightarrow> a | Some d \<Rightarrow> 16 * a + d) 0 s"

definition py_int16 :: "string \<Rightarrow> error + int" where
  "py_int16 s =
     (let t = rev (dropWhile is_space (rev (dropWhile is_space s)));
          (neg, u) = (case t of
                        [] \<Rightarrow> (False, [])
                      | c # cs \<Rightarrow> if c = CHR ''-'' then (True, cs)
                                  else if c = CHR ''+'' then (False, cs)
                                  else (False, t));
          body = (if startswith u ''0x'' \<or> startswith u ''0X''
                  then (let v = drop 2 u in if startswith v ''_'' then drop 1 v else v)
                  else u)
      in case body of
           [] \<Rightarrow> Inl ValueError
         | c # cs \<Rightarrow>
             if hex_val c \<noteq> None \<and> scan_hex c cs
             then Inr (if neg then - hex_value body else hex_value body)
             else Inl ValueError)"

record BitFlags =
  name :: string
  doc :: string
  storage :: string
  flags :: "(string \<times> int) list"

definition with_prefix :: "attrib \<Rightarrow> string \<Rightarrow> string" where
  "with_prefix entry_attrib n =
     (case entry_attrib ''prefix'' of None \<Rightarrow> n | Some p \<Rightarrow> p @ ''_'' @ n)"

definition bitflags_step ::
  "attrib \<Rightarrow> (string \<times> int) list \<Rightarrow> attrib \<Rightarrow> error + (string \<times> int) list" where
  "bitflags_step entry_attrib fl flag =
     (case should_emit_member flag of
        Inl e \<Rightarrow> Inl e
      | Inr emit \<Rightarrow>
          if \<not> emit then Inr fl
          else
            (case flag ''bit'' of
               None \<Rightarrow> Inl KeyError
             | Some b \<Rightarrow>
                 (case py_int b of
                    Inl e \<Rightarrow> Inl e
                  | Inr bit' \<Rightarrow>
                      (case flag ''name'' of
                         None \<Rightarrow> Inl KeyError
                       | Some n \<Rightarrow>
                           Inr (AList.update (with_prefix entry_attrib (convert_variant_name n))
                                  bit' fl)))))"

definition storage_of :: "attrib \<Rightarrow> error + string" where
  \<comment> \<open>\<open>_convert_type(entry.attrib["storage"])\<close>\<close>
  "storage_of entry_attrib =
     (case entry_attrib ''storage'' of
        None \<Rightarrow> Inl KeyError
      | Some s \<Rightarrow>
          (case convert_type (Some s) of
             Inl e \<Rightarrow> Inl e
           | Inr None \<Rightarrow> Inl TypeError
           | Inr (Some st) \<Rightarrow> Inr st))"

definition BitFlags_from_xml :: "element \<Rightarrow> error + BitFlags" where
  "BitFlags_from_xml entry =
     (case attrib entry ''name'' of
        None \<Rightarrow> Inl KeyError
      | Some n \<Rightarrow>
          (case storage_of (attrib entry) of
             Inl e \<Rightarrow> Inl e
           | Inr st \<Rightarrow>
               (case fold_result (bitflags_step (attrib entry)) [] (children entry) of
                  Inl e \<Rightarrow> Inl e
                | Inr fl \<Rightarrow>
                    Inr \<lparr>name = n, doc = format_doc (entry_text entry), storage = st,
                         flags = fl\<rparr>)))"

record Enum =
  name :: string
  doc :: string
  storage :: string
  options :: "(string \<times> int) list"

definition enum_step ::
  "attrib \<Rightarrow> (string \<times> int) list \<Rightarrow> attrib \<Rightarrow> error + (string \<times> int) list" where
  "enum_step entry_attrib opts option =
     (case should_emit_member option of
        Inl e \<Rightarrow> Inl e
      | Inr emit \<Rightarrow>
          if \<not> emit then Inr opts
          else
            (case option ''value'' of
               None \<Rightarrow> Inl KeyError
             | Some v \<Rightarrow>
                 (case (if startswith v ''0x'' then py_int16 v else py_int v) of
                    Inl e \<Rightarrow> Inl e
                  | Inr val \<Rightarrow>
                      (case option ''name'' of
                         None \<Rightarrow> Inl KeyError
                       | Some n \<Rightarrow>
                           Inr (AList.update (with_prefix entry_attrib (convert_variant_name n))
                                  val opts)))))"

definition Enum_from_xml :: "element \<Rightarrow> error + Enum" where
  "Enum_from_xml entry =
     (case attrib entry ''name'' of
        None \<Rightarrow> Inl KeyError
      | Some n \<Rightarrow>
          (case storage_of (attrib entry) of
             Inl e \<Rightarrow> Inl e
           | Inr st \<Rightarrow>
               (case fold_result (enum_step (attrib entry)) [] (children entry) of
                  Inl e \<Rightarrow> Inl e
                | Inr opts \<Rightarrow>
                    Inr \<lparr>name = n, doc = format_doc (entry_text entry), storage = st,
                         options = opts\<rparr>)))"

type_synonym bitfield_entry = "Type \<times> string \<times> string \<times> string option"

record BitField =
  name :: string
  doc :: string
  storage :: string
  fields' :: "(string \<times> bitfield_entry) list"

definition bitfield_step ::
  "attrib \<Rightarrow> (string \<times> bitfield_entry) list \<Rightarrow> attrib
     \<Rightarrow> error + (string \<times> bitfield_entry) list" where
  "bitfield_step prefixes' fs field =
     (case should_emit_member field of
        Inl e \<Rightarrow> Inl e
      | Inr emit \<Rightarrow>
          if \<not> emit then Inr fs
          else
            (case field ''pos'' of
               None \<Rightarrow> Inl KeyError
             | Some pos' \<Rightarrow>
                 (case field ''mask'' of
                    None \<Rightarrow> Inl KeyError
                  | Some mask' \<Rightarrow>
                      (case field ''name'' of
                         None \<Rightarrow> Inl KeyError
                       | Some n \<Rightarrow>
                           (case Type_from_xml field of
                              Inl e \<Rightarrow> Inl e
                            | Inr t \<Rightarrow>
                                (let dflt =
                                       (case field ''default'' of
                                          None \<Rightarrow> None
                                        | Some d \<Rightarrow>
                                            (case prefixes' (ty t) of
                                               None \<Rightarrow> Some d
                                             | Some p \<Rightarrow> Some (p @ ''_'' @ d)))
                                 in Inr (AList.update (convert_field_name n)
                                           (t, pos', mask', dflt) fs)))))))"

definition BitField_from_xml :: "element \<Rightarrow> attrib \<Rightarrow> error + BitField" where
  "BitField_from_xml entry prefixes' =
     (case attrib entry ''name'' of
        None \<Rightarrow> Inl KeyError
      | Some n \<Rightarrow>
          (case storage_of (attrib entry) of
             Inl e \<Rightarrow> Inl e
           | Inr st \<Rightarrow>
               (case fold_result (bitfield_step prefixes') [] (children entry) of
                  Inl e \<Rightarrow> Inl e
                | Inr fs \<Rightarrow>
                    Inr \<lparr>name = n, doc = format_doc (entry_text entry), storage = st,
                         fields' = fs\<rparr>)))"

section \<open>Notions used to state the properties\<close>

text \<open>For the version comparison: the separator a version string is cut at,
  a version and a list of parsed components as 4-tuples (missing components are 0), and
  the verdict that the lexicographic order of tuples gives.\<close>

definition version_sep :: "string \<Rightarrow> char" where
  "version_sep s = (if CHR ''.'' \<in> set s then CHR ''.'' else CHR ''_'')"

definition version_tuple :: "VersionInfo \<Rightarrow> int \<times> int \<times> int \<times> int" where
  "version_tuple v = (major v, minor v, micro v, patch v)"

definition parts_tuple :: "int list \<Rightarrow> int \<times> int \<times> int \<times> int" where
  "parts_tuple ps =
     (let padded = ps @ replicate (4 - length ps) 0
      in (padded ! 0, padded ! 1, padded ! 2, padded ! 3))"

definition relation_of :: "int \<times> int \<times> int \<times> int \<Rightarrow> int \<times> int \<times> int \<times> int \<Rightarrow> VersionRelation" where
  "relation_of t u = (if t < u then LOWER else if t = u then EXACT else HIGHER)"

text \<open>For the predicates: a version string every component of which is an
  integer literal, and the exclusion rules of \<open>should_emit_struct\<close>.\<close>

definition wellformed_version :: "string \<Rightarrow> bool" where
  "wellformed_version s =
     list_all (\<lambda>p. case py_int p of Inl _ \<Rightarrow> False | Inr _ \<Rightarrow> True) (split_version_string s)"

definition struct_denied :: "attrib \<Rightarrow> bool" where
  "struct_denied a =
     (a ''versions'' \<noteq> None
      \<or> (case a ''module'' of None \<Rightarrow> False | Some m \<Rightarrow> m \<in> set BETHESDA_MODULES)
      \<or> (case a ''name'' of
            None \<Rightarrow> False
          | Some n \<Rightarrow> n \<in> set EXCLUDED_NAMES \<or> contains ''physx'' (lower n)
                        \<or> startswith n ''bhk''))"

text \<open>A target fails the \<open>ver1\<close>/\<open>ver2\<close> range of a member when \<open>ver1\<close> is \<open>HIGHER\<close> than it
  or, \<open>ver1\<close> having been read, \<open>ver2\<close> is \<open>LOWER\<close>.\<close>

definition member_fails_range :: "attrib \<Rightarrow> VersionInfo \<Rightarrow> bool" where
  "member_fails_range a v =
     ((case a ''ver1'' of None \<Rightarrow> False | Some s \<Rightarrow> check_version v s = Inr HIGHER)
      \<or> ((case a ''ver1'' of None \<Rightarrow> True | Some s \<Rightarrow> wellformed_version s)
          \<and> (case a ''ver2'' of None \<Rightarrow> False | Some s \<Rightarrow> check_version v s = Inr LOWER)))"

definition member_versions_ok :: "attrib \<Rightarrow> bool" where
  "member_versions_ok a =
     ((case a ''ver1'' of None \<Rightarrow> True | Some s \<Rightarrow> wellformed_version s)
      \<and> (case a ''ver2'' of None \<Rightarrow> True | Some s \<Rightarrow> wellformed_version s))"

definition parsed_version :: "string \<Rightarrow> int list \<Rightarrow> bool" where
  \<comment> \<open>\<open>ps\<close> are the integer values of the components of \<open>s\<close>\<close>
  "parsed_version s ps = list_all2 (\<lambda>p n. py_int p = Inr n) (split_version_string s) ps"

text \<open>An operand is here an identifier or a number; \<open>leaf\<close> is what the parser makes of it.\<close>

definition wordy :: "string \<Rightarrow> bool" where
  \<comment> \<open>an identifier or a number: a non-empty text of letters, digits and underscores\<close>
  "wordy s = (s \<noteq> [] \<and> list_all is_word s)"

definition leaf :: "string \<Rightarrow> string" where
  \<comment> \<open>what \<open>parse_expression\<close> makes of a text without parenthesis and operator\<close>
  "leaf s = (if \<not> isnumeric s then convert_field_name s else s)"

text \<open>The third pattern after its first group, and after its second group; the
  spellings are the texts of both columns of the operator table.\<close>

definition RE_3_TAIL :: re where
  "RE_3_TAIL = seqs (Chr (Lit (CHR '' ''))) [Group 2 OP_RE, Chr (Lit (CHR '' '')), Group 3 (Star Dot)]"

definition RE_3_LAST :: re where
  "RE_3_LAST = Seq (Chr (Lit (CHR '' ''))) (Group 3 (Star Dot))"

definition spellings :: "string set" where
  "spellings = fst ` set OPERATORS \<union> snd ` set OPERATORS"

section \<open>Properties of the version comparison\<close>

lemma split_acc_nonempty: "split_acc sep acc s \<noteq> []"
  by (induction s arbitrary: acc) auto

lemma join_Cons: "xs \<noteq> [] \<Longrightarrow> join sep (x # xs) = x @ sep @ join sep xs"
  by (cases xs) auto

lemma split_acc_join: "join [sep] (split_acc sep acc s) = rev acc @ s"
  by (induction s arbitrary: acc) (auto simp: join_Cons split_acc_nonempty)

lemma split_acc_no_sep:
  "sep \<notin> set acc \<Longrightarrow> \<forall>p\<in>set (split_acc sep acc s). sep \<notin> set p"
proof (induction s arbitrary: acc)
  case Nil
  then show ?case by simp
next
  case (Cons c cs)
  show ?case
  proof (cases "c = sep")
    case True
    with Cons.prems Cons.IH [of "[]"] show ?thesis by simp
  next
    case False
    with Cons.prems Cons.IH [of "c # acc"] show ?thesis by simp
  qed
qed

lemma split_join: "join [sep] (split s sep) = s"
  by (simp add: split_def split_acc_join)

lemma split_no_sep: "p \<in> set (split s sep) \<Longrightarrow> sep \<notin> set p"
  unfolding split_def using split_acc_no_sep [of sep "[]" s] by simp

lemma split_nonempty: "split s sep \<noteq> []"
  by (simp add: split_def split_acc_nonempty)

lemma takeWhile_eq_replicate: "takeWhile (\<lambda>x. x = c) xs = replicate (length (takeWhile (\<lambda>x. x = c) xs)) c"
  by (induction xs) auto

lemma lstrip_restore: "\<exists>k. replicate k c @ lstrip p c = p"
proof -
  have "takeWhile (\<lambda>x. x = c) p @ dropWhile (\<lambda>x. x = c) p = p" by simp
  then show ?thesis
    unfolding lstrip_def using takeWhile_eq_replicate [of c p] by metis
qed

lemma lstrip_not_startswith: "\<not> startswith (lstrip p c) [c]"
proof (cases "dropWhile (\<lambda>x. x = c) p")
  case Nil
  show ?thesis unfolding lstrip_def startswith_def Nil by simp
next
  case (Cons y ys)
  then have "y \<noteq> c" using hd_dropWhile [of "\<lambda>x. x = c" p] by auto
  with Cons show ?thesis by (simp add: lstrip_def startswith_def)
qed

lemma map_result_list_all2:
  "map_result f xs = Inr ys \<longleftrightarrow> list_all2 (\<lambda>x y. f x = Inr y) xs ys"
proof (induction xs arbitrary: ys)
  case Nil
  then show ?case by auto
next
  case (Cons x xs)
  show ?case
  proof (cases "f x")
    case (Inl e)
    then show ?thesis by (cases ys) auto
  next
    case fx: (Inr y)
    show ?thesis
    proof (cases "map_result f xs")
      case (Inl e)
      with fx Cons.IH show ?thesis by (cases ys) auto
    next
      case (Inr zs)
      with fx Cons.IH show ?thesis by (cases ys) auto
    qed
  qed
qed

lemma map_result_error:
  "x \<in> set xs \<Longrightarrow> f x = Inl ValueError \<Longrightarrow> \<forall>y e. f y = Inl e \<longrightarrow> e = ValueError \<Longrightarrow> map_result f xs = Inl ValueError"
proof (induction xs)
  case Nil
  then show ?case by simp
next
  case (Cons a xs)
  then show ?case by (auto split: sum.splits)
qed

lemma py_int_error: "py_int p = Inl e \<Longrightarrow> e = ValueError"
  by (auto simp: py_int_def Let_def split: if_splits prod.splits)

lemma part_get_padded:
  "i < 4 \<Longrightarrow> (ps @ replicate (4 - length ps) 0) ! i = part_get ps i"
  by (auto simp: part_get_def nth_append)

lemma compare_parts_lex: "compare_parts v ps = relation_of (parts_tuple ps) (version_tuple v)"
  by (auto simp: compare_parts_def relation_of_def parts_tuple_def version_tuple_def Let_def
        part_get_padded)

text \<open>
  Claim C1, as the code has it. For every target version \<open>v\<close> and string \<open>s\<close>: the string is
  cut at every \<open>.\<close> if it has one and at every \<open>_\<close> otherwise; the leading \<open>V\<close> characters of
  the first component, and of no other, are removed; if every component is an integer
  literal, \<open>check_version v s\<close> is the lexicographic comparison of the first four components,
  missing ones read as 0, with the target, and tells how the string stands to the target;
  a component that is no integer literal raises \<open>ValueError\<close>. In particular
  \<open>check_version (20,1,0,3) "20.1.0.4"\<close> is \<open>HIGHER\<close> and
  \<open>check_version (20,2,0,7) "20_2_0_7"\<close> is \<open>EXACT\<close>.
\<close>

theorem check_version_componentwise:
  "(let parts = split_version_string s; sep = version_sep s in
      parts \<noteq> [] \<and> (\<forall>p\<in>set parts. sep \<notin> set p) \<and> \<not> startswith (hd parts) ''V'' \<and>
      (\<exists>k. join [sep] ((replicate k (CHR ''V'') @ hd parts) # tl parts) = s) \<and>
      (\<forall>ps. list_all2 (\<lambda>p n. py_int p = Inr n) parts ps \<longrightarrow>
         check_version v s = Inr (relation_of (parts_tuple ps) (version_tuple v))) \<and>
      ((\<exists>p\<in>set parts. py_int p = Inl ValueError) \<longrightarrow> check_version v s = Inl ValueError))
   \<and> check_version (mk_version 20 1 0 3) ''20.1.0.4'' = Inr HIGHER
   \<and> check_version (mk_version 20 2 0 7) ''20_2_0_7'' = Inr EXACT"
proof -
  define sep where "sep = version_sep s"
  define raw where "raw = split s sep"
  define parts where "parts = split_version_string s"
  obtain p0 rest where raw: "raw = p0 # rest"
    using split_nonempty [of s sep] by (cases raw) (auto simp: raw_def)
  have parts: "parts = lstrip p0 (CHR ''V'') # rest"
    using raw by (auto simp: parts_def split_version_string_def raw_def sep_def version_sep_def)
  have nonempty: "parts \<noteq> []"
    by (simp add: parts)
  have no_sep: "\<forall>p\<in>set parts. sep \<notin> set p"
  proof
    fix p assume "p \<in> set parts"
    then have "p = lstrip p0 (CHR ''V'') \<or> p \<in> set raw"
      by (auto simp: parts raw)
    moreover have "sep \<notin> set p0"
      using split_no_sep [of p0 s sep] by (simp add: raw_def [symmetric] raw)
    then have "sep \<notin> set (lstrip p0 (CHR ''V''))"
      using set_dropWhileD [of sep "\<lambda>x. x = CHR ''V''" p0] by (auto simp: lstrip_def)
    ultimately show "sep \<notin> set p"
      using split_no_sep [of p s sep] by (auto simp: raw_def)
  qed
  have first: "\<not> startswith (hd parts) ''V''"
    using lstrip_not_startswith [of p0 "CHR ''V''"] by (simp add: parts)
  have restore: "\<exists>k. join [sep] ((replicate k (CHR ''V'') @ hd parts) # tl parts) = s"
  proof -
    obtain k where "replicate k (CHR ''V'') @ lstrip p0 (CHR ''V'') = p0"
      using lstrip_restore by blast
    then have "join [sep] ((replicate k (CHR ''V'') @ hd parts) # tl parts) = join [sep] raw"
      by (simp add: parts raw)
    then show ?thesis using split_join [of sep s] by (auto simp: raw_def)
  qed
  have ok: "check_version v s = Inr (relation_of (parts_tuple ps) (version_tuple v))"
    if "list_all2 (\<lambda>p n. py_int p = Inr n) parts ps" for ps
    using that by (simp add: check_version_def parts_def [symmetric]
        map_result_list_all2 [symmetric] compare_parts_lex)
  have bad: "check_version v s = Inl ValueError" if "\<exists>p\<in>set parts. py_int p = Inl ValueError"
  proof -
    from that obtain p where "p \<in> set parts" "py_int p = Inl ValueError" by blast
    then have "map_result py_int parts = Inl ValueError"
      using map_result_error [of p parts py_int] py_int_error by blast
    then show ?thesis by (simp add: check_version_def parts_def)
  qed
  have ex1: "check_version (mk_version 20 1 0 3) ''20.1.0.4'' = Inr HIGHER"
    by code_simp
  have ex2: "check_version (mk_version 20 2 0 7) ''20_2_0_7'' = Inr EXACT"
    by code_simp
  show ?thesis
    unfolding Let_def parts_def [symmetric] sep_def [symmetric]
    using nonempty no_sep first restore ok bad ex1 ex2 by blast
qed

text \<open>The verdict C1 names for its first example, \<open>LOWER\<close>, is not what the code returns.\<close>

theorem check_version_example_counterexample:
  "check_version (mk_version 20 1 0 3) ''20.1.0.4'' \<noteq> Inr LOWER"
  by code_simp

theorem check_version_componentwise_witness:
  "list_all2 (\<lambda>p n. py_int p = Inr n) (split_version_string ''V20.2'') [20, 2]
   \<and> check_version (mk_version 20 2 0 7) ''V20.2'' = Inr LOWER
   \<and> ''x'' \<in> set (split_version_string ''20.x'') \<and> py_int ''x'' = Inl ValueError
   \<and> check_version (mk_version 20 2 0 7) ''20.x'' = Inl ValueError"
proof -
  have a: "list_all2 (\<lambda>p n. py_int p = Inr n) (split_version_string ''V20.2'') [20, 2]"
    by code_simp
  have b: "''x'' \<in> set (split_version_string ''20.x'')" "py_int ''x'' = Inl ValueError"
    by code_simp+
  have c: "relation_of (parts_tuple [20, 2]) (version_tuple (mk_version 20 2 0 7)) = LOWER"
    by code_simp
  show ?thesis
    using a b c check_version_componentwise [of "''V20.2''" "mk_version 20 2 0 7"]
      check_version_componentwise [of "''20.x''" "mk_version 20 2 0 7"]
    unfolding Let_def by metis
qed

section \<open>Properties of the expression parser\<close>

text \<open>
  Claim C7: \<open>parse_expression\<close> turns \<open>(fizz) #ADD# (buzz)\<close> into \<open>fizz + buzz\<close>,
  \<open>!(fizz #ADD# buzz)\<close> into \<open>!(fizz + buzz)\<close> and \<open>fizz #AND# buzz\<close> into \<open>fizz && buzz\<close>.
\<close>

theorem parse_expression_examples:
  "parse_expression ''(fizz) #ADD# (buzz)'' = Inr ''fizz + buzz''
   \<and> parse_expression ''!(fizz #ADD# buzz)'' = Inr ''!(fizz + buzz)''
   \<and> parse_expression ''fizz #AND# buzz'' = Inr ''fizz && buzz''"
  by code_simp

section \<open>Properties of the structure and member predicates\<close>

lemma map_result_total:
  "(\<exists>ys. map_result f xs = Inr ys) \<longleftrightarrow> list_all (\<lambda>x. case f x of Inl _ \<Rightarrow> False | Inr _ \<Rightarrow> True) xs"
  by (induction xs) (auto split: sum.splits)

lemma check_version_total:
  "(\<exists>r. check_version v s = Inr r) \<longleftrightarrow> wellformed_version s"
  unfolding wellformed_version_def map_result_total [symmetric] check_version_def
  by (auto split: sum.splits)

lemma check_version_error: "check_version v s = Inl e \<Longrightarrow> check_version v' s = Inl e"
  by (auto simp: check_version_def split: sum.splits)

lemma check_version_lex:
  "list_all2 (\<lambda>p n. py_int p = Inr n) (split_version_string s) ps \<Longrightarrow>
     check_version v s = Inr (relation_of (parts_tuple ps) (version_tuple v))"
  by (simp add: check_version_def map_result_list_all2 [symmetric] compare_parts_lex)

lemma any_result_total:
  "\<forall>x\<in>set xs. \<exists>b. f x = Inr b \<Longrightarrow> any_result f xs = Inr (\<exists>x\<in>set xs. f x = Inr True)"
  by (induction xs) auto

lemma any_result_True: "any_result f xs = Inr True \<Longrightarrow> \<exists>x\<in>set xs. f x = Inr True"
  by (induction xs) (auto split: sum.splits if_splits)

lemma any_result_False: "any_result f xs = Inr False \<longleftrightarrow> (\<forall>x\<in>set xs. f x = Inr False)"
  by (induction xs) (auto split: sum.splits if_splits)

lemma wellformed_version_Inr: "wellformed_version s \<Longrightarrow> check_version v s \<noteq> Inl e"
  using check_version_total [of v s] by auto

lemma Inr_wellformed_version: "check_version v s = Inr r \<Longrightarrow> wellformed_version s"
  using check_version_total [of v s] by auto

lemma should_emit_struct_denied: "struct_denied a \<Longrightarrow> should_emit_struct a = Inr False"
  by (auto simp: struct_denied_def should_emit_struct_def split: option.splits)

lemma should_emit_struct_open:
  "\<not> struct_denied a \<Longrightarrow>
     should_emit_struct a = any_result (struct_check_target_version a) TARGET_VERSIONS"
  by (auto simp: struct_denied_def should_emit_struct_def split: option.splits)

lemma not_HIGHER_iff: "relation_of t u \<noteq> HIGHER \<longleftrightarrow> t \<le> u"
  by (auto simp: relation_of_def)

lemma struct_check_since:
  assumes "a ''versions'' = None" and "a ''since'' = Some s" and "parsed_version s ps"
  shows "a ''until'' = None \<Longrightarrow>
           struct_check_target_version a v = Inr (parts_tuple ps \<le> version_tuple v)"
    and "struct_check_target_version a v = Inr True \<Longrightarrow> parts_tuple ps \<le> version_tuple v"
proof -
  have cv: "check_version v s = Inr (relation_of (parts_tuple ps) (version_tuple v))"
    using assms(3) check_version_lex unfolding parsed_version_def by blast
  show "a ''until'' = None \<Longrightarrow>
           struct_check_target_version a v = Inr (parts_tuple ps \<le> version_tuple v)"
    using assms(1,2) by (simp add: struct_check_target_version_def cv not_HIGHER_iff)
  show "struct_check_target_version a v = Inr True \<Longrightarrow> parts_tuple ps \<le> version_tuple v"
    using assms(1,2)
    by (auto simp: struct_check_target_version_def cv Let_def not_HIGHER_iff
          split: option.splits sum.splits if_splits)
qed

text \<open>
  Claim C2, as the code has it. \<open>should_emit_struct\<close> returns \<open>False\<close> whenever the attributes
  hold \<open>versions\<close> (whatever it lists), a module of the vendor denylist, a denylisted name, a
  name with \<open>physx\<close> in it in any case, or a name starting with \<open>bhk\<close>. Otherwise it returns
  \<open>True\<close> when \<open>since\<close> is absent; with a well-formed \<open>since\<close> and no \<open>until\<close> it returns \<open>True\<close>
  exactly if one of the five targets is at or above \<open>since\<close>, and \<open>False\<close> if none is; and
  with \<open>until\<close> present it returns \<open>True\<close> only if one of the targets is at or above \<open>since\<close>.
\<close>

theorem should_emit_struct_decision:
  "(struct_denied a \<longrightarrow> should_emit_struct a = Inr False)
   \<and> (\<not> struct_denied a \<longrightarrow>
        (a ''since'' = None \<longrightarrow> should_emit_struct a = Inr True)
        \<and> (\<forall>s ps. a ''since'' = Some s \<and> parsed_version s ps \<longrightarrow>
               (a ''until'' = None \<longrightarrow>
                  should_emit_struct a
                    = Inr (\<exists>v\<in>set TARGET_VERSIONS. parts_tuple ps \<le> version_tuple v))
               \<and> (should_emit_struct a = Inr True \<longrightarrow>
                    (\<exists>v\<in>set TARGET_VERSIONS. parts_tuple ps \<le> version_tuple v))))"
proof (intro conjI impI allI)
  assume "struct_denied a"
  then show "should_emit_struct a = Inr False" by (rule should_emit_struct_denied)
next
  assume allowed: "\<not> struct_denied a"
  then have nov: "a ''versions'' = None" by (simp add: struct_denied_def)
  note eq = should_emit_struct_open [OF allowed]
  show "should_emit_struct a = Inr True" if "a ''since'' = None"
  proof -
    have "struct_check_target_version a v = Inr True" for v
      using nov that by (simp add: struct_check_target_version_def)
    then show ?thesis
      by (simp add: eq TARGET_VERSIONS_def)
  qed
  fix s ps
  assume h: "a ''since'' = Some s \<and> parsed_version s ps"
  then have since: "a ''since'' = Some s" and ps: "parsed_version s ps" by blast+
  show "should_emit_struct a = Inr (\<exists>v\<in>set TARGET_VERSIONS. parts_tuple ps \<le> version_tuple v)"
    if "a ''until'' = None"
    using any_result_total [of TARGET_VERSIONS "struct_check_target_version a"]
      struct_check_since(1) [of a, OF nov since ps that]
    by (simp add: eq)
  show "\<exists>v\<in>set TARGET_VERSIONS. parts_tuple ps \<le> version_tuple v"
    if "should_emit_struct a = Inr True"
    using any_result_True [of "struct_check_target_version a" TARGET_VERSIONS] that
      struct_check_since(2) [of a, OF nov since ps]
    by (auto simp: eq)
qed

text \<open>Every target is below \<open>20.7.0.0\<close>, so none is higher than this \<open>since\<close>; the structure
  is excluded all the same, because no target has reached it.\<close>

theorem should_emit_struct_since_counterexample:
  "TARGET_VERSIONS = [mk_version 20 1 0 3, mk_version 20 2 0 7, mk_version 20 2 0 8,
                      mk_version 20 3 0 9, mk_version 20 6 0 0]
   \<and> version_tuple (mk_version 20 1 0 3) < (20, 7, 0, 0)
   \<and> version_tuple (mk_version 20 2 0 7) < (20, 7, 0, 0)
   \<and> version_tuple (mk_version 20 2 0 8) < (20, 7, 0, 0)
   \<and> version_tuple (mk_version 20 3 0 9) < (20, 7, 0, 0)
   \<and> version_tuple (mk_version 20 6 0 0) < (20, 7, 0, 0)
   \<and> should_emit_struct [''since'' \<mapsto> ''20.7.0.0''] = Inr False"
proof -
  have "should_emit_struct [''since'' \<mapsto> ''20.7.0.0''] = Inr False"
    by code_simp
  then show ?thesis
    by (simp add: TARGET_VERSIONS_def version_tuple_def mk_version_def)
qed

theorem should_emit_struct_decision_witness:
  "struct_denied [''versions'' \<mapsto> ''20.2.0.7'']
   \<and> check_version (mk_version 20 2 0 7) ''20.2.0.7'' = Inr EXACT
   \<and> should_emit_struct [''versions'' \<mapsto> ''20.2.0.7''] = Inr False
   \<and> struct_denied [''module'' \<mapsto> ''BSHavok'', ''since'' \<mapsto> ''20.2.0.7'']
   \<and> should_emit_struct [''module'' \<mapsto> ''BSHavok'', ''since'' \<mapsto> ''20.2.0.7''] = Inr False
   \<and> \<not> struct_denied [''name'' \<mapsto> ''NiNode'', ''since'' \<mapsto> ''20.3.0.9'']
   \<and> parsed_version ''20.3.0.9'' [20, 3, 0, 9]
   \<and> mk_version 20 3 0 9 \<in> set TARGET_VERSIONS
   \<and> parts_tuple [20, 3, 0, 9] \<le> version_tuple (mk_version 20 3 0 9)
   \<and> should_emit_struct [''name'' \<mapsto> ''NiNode'', ''since'' \<mapsto> ''20.3.0.9''] = Inr True
   \<and> \<not> struct_denied [''name'' \<mapsto> ''NiNode'']
   \<and> should_emit_struct [''name'' \<mapsto> ''NiNode''] = Inr True"
proof -
  let ?a = "[''name'' \<mapsto> ''NiNode'', ''since'' \<mapsto> ''20.3.0.9'']"
  have d1: "struct_denied [''versions'' \<mapsto> ''20.2.0.7'']"
    by (simp add: struct_denied_def)
  have e1: "check_version (mk_version 20 2 0 7) ''20.2.0.7'' = Inr EXACT"
    by code_simp
  have d2: "struct_denied [''module'' \<mapsto> ''BSHavok'', ''since'' \<mapsto> ''20.2.0.7'']"
    by (simp add: struct_denied_def BETHESDA_MODULES_def)
  have d3: "\<not> struct_denied ?a"
    by code_simp
  have p: "parsed_version ''20.3.0.9'' [20, 3, 0, 9]"
    by code_simp
  have t: "mk_version 20 3 0 9 \<in> set TARGET_VERSIONS"
    by (simp add: TARGET_VERSIONS_def)
  have le: "parts_tuple [20, 3, 0, 9] \<le> version_tuple (mk_version 20 3 0 9)"
    by (simp add: parts_tuple_def version_tuple_def mk_version_def)
  have ex: "\<exists>v\<in>set TARGET_VERSIONS. parts_tuple [20, 3, 0, 9] \<le> version_tuple v"
    using t le by blast
  have d4: "\<not> struct_denied [''name'' \<mapsto> ''NiNode'']"
    by code_simp
  have r1: "should_emit_struct [''versions'' \<mapsto> ''20.2.0.7''] = Inr False"
    using should_emit_struct_decision [of "[''versions'' \<mapsto> ''20.2.0.7'']"] d1 by blast
  have r2: "should_emit_struct [''module'' \<mapsto> ''BSHavok'', ''since'' \<mapsto> ''20.2.0.7''] = Inr False"
    using should_emit_struct_decision
      [of "[''module'' \<mapsto> ''BSHavok'', ''since'' \<mapsto> ''20.2.0.7'']"] d2 by blast
  have s: "?a ''since'' = Some ''20.3.0.9''" "?a ''until'' = None"
    by simp_all
  have "should_emit_struct ?a
          = Inr (\<exists>v\<in>set TARGET_VERSIONS. parts_tuple [20, 3, 0, 9] \<le> version_tuple v)"
    using should_emit_struct_decision [of ?a] d3 s p by blast
  with ex have r3: "should_emit_struct ?a = Inr True"
    by (simp del: less_eq_prod_simp)
  have n: "[''name'' \<mapsto> ''NiNode''] ''since'' = None"
    by simp
  have r4: "should_emit_struct [''name'' \<mapsto> ''NiNode''] = Inr True"
    using should_emit_struct_decision [of "[''name'' \<mapsto> ''NiNode'']"] d4 n by blast
  show ?thesis
    by (intro conjI) (rule d1 e1 r1 d2 r2 d3 p t le r3 d4 r4)+
qed

lemma member_check_False:
  "member_check_target_version a v = Inr False \<longleftrightarrow> member_fails_range a v"
  by (auto simp: member_check_target_version_def member_fails_range_def
        wellformed_version_Inr
        split: option.splits sum.splits dest: Inr_wellformed_version)

lemma member_check_total:
  "member_versions_ok a \<Longrightarrow> \<exists>b. member_check_target_version a v = Inr b"
  by (auto simp: member_check_target_version_def member_versions_ok_def
        wellformed_version_Inr split: option.splits sum.splits)

lemma member_gate_total:
  assumes "member_versions_ok a"
  shows "any_result (member_check_target_version a) TARGET_VERSIONS
           = Inr (\<exists>v\<in>set TARGET_VERSIONS. \<not> member_fails_range a v)"
proof -
  have "member_check_target_version a v = Inr True \<longleftrightarrow> \<not> member_fails_range a v" for v
    using member_check_total [OF assms, of v] member_check_False [of a v] by auto
  then show ?thesis
    using any_result_total [of TARGET_VERSIONS "member_check_target_version a"]
      member_check_total [OF assms] by simp
qed

lemma should_emit_member_plain:
  "a ''vercond'' = None \<Longrightarrow> a ''cond'' = None \<Longrightarrow>
     should_emit_member a = any_result (member_check_target_version a) TARGET_VERSIONS"
  by (auto simp: should_emit_member_def split: sum.splits)

lemma parsed_version_wellformed: "parsed_version s ps \<Longrightarrow> wellformed_version s"
  using check_version_lex [of s ps] Inr_wellformed_version unfolding parsed_version_def by blast

lemma targets_below_20_7: "v \<in> set TARGET_VERSIONS \<Longrightarrow> check_version v ''20.7.0.0'' = Inr HIGHER"
proof -
  have "\<forall>v\<in>set TARGET_VERSIONS. check_version v ''20.7.0.0'' = Inr HIGHER"
    by code_simp
  then show "v \<in> set TARGET_VERSIONS \<Longrightarrow> check_version v ''20.7.0.0'' = Inr HIGHER"
    by blast
qed

text \<open>
  Claim C3: for attributes with neither \<open>vercond\<close> nor \<open>cond\<close>, \<open>should_emit_member\<close> returns
  \<open>False\<close> exactly if every one of the five targets fails the \<open>ver1\<close>/\<open>ver2\<close> range (and, with
  well-formed version strings, \<open>True\<close> otherwise). Every target is below \<open>20.7.0.0\<close>, so a
  field with that \<open>ver1\<close> is excluded; a field is included when some target is at or above
  its \<open>ver1\<close> and \<open>ver2\<close> is absent or at or above that target.
\<close>

theorem should_emit_member_version_gate:
  assumes "a ''vercond'' = None" and "a ''cond'' = None"
  shows "(should_emit_member a = Inr False \<longleftrightarrow> (\<forall>v\<in>set TARGET_VERSIONS. member_fails_range a v))
   \<and> (member_versions_ok a \<longrightarrow>
        should_emit_member a = Inr (\<exists>v\<in>set TARGET_VERSIONS. \<not> member_fails_range a v))
   \<and> (\<forall>v\<in>set TARGET_VERSIONS. version_tuple v < (20, 7, 0, 0))
   \<and> (a ''ver1'' = Some ''20.7.0.0'' \<longrightarrow> should_emit_member a = Inr False)
   \<and> (\<forall>s ps v. a ''ver1'' = Some s \<and> parsed_version s ps \<and> v \<in> set TARGET_VERSIONS
          \<and> parts_tuple ps \<le> version_tuple v
          \<and> (a ''ver2'' = None
              \<or> (\<exists>s2 ps2. a ''ver2'' = Some s2 \<and> parsed_version s2 ps2
                    \<and> version_tuple v \<le> parts_tuple ps2))
        \<longrightarrow> should_emit_member a = Inr True)"
proof (intro conjI impI allI)
  note eq = should_emit_member_plain [OF assms]
  show "should_emit_member a = Inr False \<longleftrightarrow> (\<forall>v\<in>set TARGET_VERSIONS. member_fails_range a v)"
    by (simp add: eq any_result_False member_check_False)
  show "should_emit_member a = Inr (\<exists>v\<in>set TARGET_VERSIONS. \<not> member_fails_range a v)"
    if "member_versions_ok a"
    using member_gate_total [OF that] by (simp add: eq)
  show "\<forall>v\<in>set TARGET_VERSIONS. version_tuple v < (20, 7, 0, 0)"
    by (simp add: TARGET_VERSIONS_def version_tuple_def mk_version_def)
  show "should_emit_member a = Inr False" if "a ''ver1'' = Some ''20.7.0.0''"
  proof -
    have "\<forall>v\<in>set TARGET_VERSIONS. member_check_target_version a v = Inr False"
      using that targets_below_20_7 by (simp add: member_check_target_version_def)
    then show ?thesis by (simp add: eq any_result_False)
  qed
  show "should_emit_member a = Inr True"
    if h: "a ''ver1'' = Some s \<and> parsed_version s ps \<and> v \<in> set TARGET_VERSIONS
          \<and> parts_tuple ps \<le> version_tuple v
          \<and> (a ''ver2'' = None
              \<or> (\<exists>s2 ps2. a ''ver2'' = Some s2 \<and> parsed_version s2 ps2
                    \<and> version_tuple v \<le> parts_tuple ps2))" for s ps v
  proof -
    from h have v1: "check_version v s = Inr (relation_of (parts_tuple ps) (version_tuple v))"
      using check_version_lex unfolding parsed_version_def by blast
    from h have nh: "relation_of (parts_tuple ps) (version_tuple v) \<noteq> HIGHER"
      by (auto simp: relation_of_def)
    have ok: "member_versions_ok a"
      using h parsed_version_wellformed by (auto simp: member_versions_ok_def)
    have "\<not> member_fails_range a v"
    proof (cases "a ''ver2''")
      case None
      with h v1 nh show ?thesis by (simp add: member_fails_range_def)
    next
      case (Some s2)
      with h obtain ps2 where p2: "parsed_version s2 ps2" "version_tuple v \<le> parts_tuple ps2"
        by auto
      then have "check_version v s2 = Inr (relation_of (parts_tuple ps2) (version_tuple v))"
        using check_version_lex unfolding parsed_version_def by blast
      moreover have "relation_of (parts_tuple ps2) (version_tuple v) \<noteq> LOWER"
        using p2(2) by (auto simp: relation_of_def)
      ultimately show ?thesis using h v1 nh Some by (simp add: member_fails_range_def)
    qed
    with h have "\<exists>v\<in>set TARGET_VERSIONS. \<not> member_fails_range a v" by blast
    with member_gate_total [OF ok] show ?thesis by (simp add: eq)
  qed
qed

theorem should_emit_member_version_gate_witness:
  "should_emit_member [''ver1'' \<mapsto> ''20.7.0.0''] = Inr False
   \<and> parsed_version ''20.3.0.9'' [20, 3, 0, 9]
   \<and> mk_version 20 6 0 0 \<in> set TARGET_VERSIONS
   \<and> parts_tuple [20, 3, 0, 9] \<le> version_tuple (mk_version 20 6 0 0)
   \<and> should_emit_member [''ver1'' \<mapsto> ''20.3.0.9''] = Inr True"
proof -
  have p: "parsed_version ''20.3.0.9'' [20, 3, 0, 9]"
    by code_simp
  have t: "mk_version 20 6 0 0 \<in> set TARGET_VERSIONS"
    by (simp add: TARGET_VERSIONS_def)
  have le: "parts_tuple [20, 3, 0, 9] \<le> version_tuple (mk_version 20 6 0 0)"
    by (simp add: parts_tuple_def version_tuple_def mk_version_def)
  have a: "should_emit_member [''ver1'' \<mapsto> ''20.7.0.0''] = Inr False"
    using should_emit_member_version_gate [of "[''ver1'' \<mapsto> ''20.7.0.0'']"] by simp
  have b: "should_emit_member [''ver1'' \<mapsto> ''20.3.0.9''] = Inr True"
    using should_emit_member_version_gate [of "[''ver1'' \<mapsto> ''20.3.0.9'']"] p t le
    by (simp del: less_eq_prod_simp) blast
  show ?thesis using a b p t le by blast
qed

text \<open>
  Claim C4, as the code has it. Let the attributes hold a \<open>vercond\<close> that is not \<open>#NISTREAM#\<close>
  and starts with none of \<open>!\<close>, \<open>#NI\<close>, \<open>#BSVER# #LT\<close>, or let \<open>cond\<close> be \<open>#BSSTREAMHEADER#\<close>.
  Then \<open>should_emit_member\<close> never returns \<open>True\<close>, and it returns \<open>False\<close> whenever \<open>ver1\<close> and
  \<open>ver2\<close>, where present, are well-formed version strings, whatever the other attributes.
\<close>

theorem should_emit_member_vercond_cond:
  assumes "(\<exists>vc. a ''vercond'' = Some vc \<and> vc \<noteq> ''#NISTREAM#'' \<and> \<not> startswith vc ''!''
               \<and> \<not> startswith vc ''#NI'' \<and> \<not> startswith vc ''#BSVER# #LT'')
           \<or> a ''cond'' = Some ''#BSSTREAMHEADER#''"
  shows "should_emit_member a \<noteq> Inr True
         \<and> (member_versions_ok a \<longrightarrow> should_emit_member a = Inr False)"
proof -
  have never: "should_emit_member a \<noteq> Inr True"
    using assms
    by (auto simp: should_emit_member_def vercond_allowed_def split: sum.splits option.splits)
  have "should_emit_member a = Inr False" if ok: "member_versions_ok a"
  proof -
    obtain b where "any_result (member_check_target_version a) TARGET_VERSIONS = Inr b"
      using member_gate_total [OF ok] by blast
    then show ?thesis
      using assms
      by (auto simp: should_emit_member_def vercond_allowed_def split: option.splits)
  qed
  with never show ?thesis by blast
qed

text \<open>The version range is read first: with a \<open>ver1\<close> that is no version the call raises,
  whatever \<open>vercond\<close> says.\<close>

theorem should_emit_member_vercond_counterexample:
  "should_emit_member [''vercond'' \<mapsto> ''x'', ''ver1'' \<mapsto> ''abc''] = Inl ValueError"
  by code_simp

theorem should_emit_member_vercond_cond_witness:
  "member_versions_ok [''vercond'' \<mapsto> ''#BSVER# #GT# 26'', ''ver1'' \<mapsto> ''20.2.0.7'']
   \<and> should_emit_member [''vercond'' \<mapsto> ''#BSVER# #GT# 26'', ''ver1'' \<mapsto> ''20.2.0.7'']
       = Inr False
   \<and> member_versions_ok [''cond'' \<mapsto> ''#BSSTREAMHEADER#'', ''vercond'' \<mapsto> ''#NISTREAM#'']
   \<and> should_emit_member [''cond'' \<mapsto> ''#BSSTREAMHEADER#'', ''vercond'' \<mapsto> ''#NISTREAM#'']
       = Inr False"
proof -
  have ok1: "member_versions_ok [''vercond'' \<mapsto> ''#BSVER# #GT# 26'', ''ver1'' \<mapsto> ''20.2.0.7'']"
    by code_simp
  have ok2: "member_versions_ok [''cond'' \<mapsto> ''#BSSTREAMHEADER#'', ''vercond'' \<mapsto> ''#NISTREAM#'']"
    by code_simp
  have h1: "''#BSVER# #GT# 26'' \<noteq> ''#NISTREAM#'' \<and> \<not> startswith ''#BSVER# #GT# 26'' ''!''
            \<and> \<not> startswith ''#BSVER# #GT# 26'' ''#NI''
            \<and> \<not> startswith ''#BSVER# #GT# 26'' ''#BSVER# #LT''"
    by (simp add: startswith_def)
  show ?thesis
    using ok1 ok2 h1
      should_emit_member_vercond_cond
        [of "[''vercond'' \<mapsto> ''#BSVER# #GT# 26'', ''ver1'' \<mapsto> ''20.2.0.7'']"]
      should_emit_member_vercond_cond
        [of "[''cond'' \<mapsto> ''#BSSTREAMHEADER#'', ''vercond'' \<mapsto> ''#NISTREAM#'']"]
    by simp
qed

section \<open>Properties of the builders\<close>

lemma fold_result_append:
  "fold_result f s (xs @ ys) =
     (case fold_result f s xs of Inl e \<Rightarrow> Inl e | Inr s' \<Rightarrow> fold_result f s' ys)"
  by (induction xs arbitrary: s) (auto split: sum.splits)

lemma fold_result_isl:
  "x \<in> set xs \<Longrightarrow> \<forall>s. isl (f s x) \<Longrightarrow> isl (fold_result f s xs)"
proof (induction xs arbitrary: s)
  case Nil
  then show ?case by simp
next
  case (Cons y ys)
  show ?case
  proof (cases "f s y")
    case (Inl e)
    then show ?thesis by simp
  next
    case (Inr s')
    show ?thesis
    proof (cases "x = y")
      case True
      with Cons.prems(2) Inr show ?thesis by (metis isl_def sum.disc(2))
    next
      case False
      with Cons.prems have "x \<in> set ys" by simp
      from Cons.IH [OF this Cons.prems(2)] Inr show ?thesis by simp
    qed
  qed
qed

lemma isl_case_sum: "isl r \<Longrightarrow> isl (case r of Inl e \<Rightarrow> Inl e | Inr v \<Rightarrow> g v)"
  by (cases r) auto

lemma member_without_name:
  assumes "should_emit_member c = Inr True" and "c ''name'' = None"
  shows "isl (bitflags_step ea fl c)" "isl (enum_step ea opts c)" "isl (bitfield_step pf bs c)"
    "isl (compound_step fs c)" "isl (niobject_step obj st c)"
  using assms
  by (auto simp: bitflags_step_def enum_step_def bitfield_step_def compound_step_def
        niobject_step_def split: option.splits sum.splits)

lemma member_without_type:
  assumes "should_emit_member c = Inr True" and "c ''type'' = None"
  shows "isl (bitfield_step pf bs c)" "isl (niobject_step obj st c)"
  using assms
  by (auto simp: bitfield_step_def niobject_step_def Type_from_xml_def
        split: option.splits sum.splits)

lemma builders_isl:
  assumes "c \<in> set (children e)"
  shows "\<forall>s. isl (bitflags_step (attrib e) s c) \<Longrightarrow> isl (BitFlags_from_xml e)"
    "\<forall>s. isl (enum_step (attrib e) s c) \<Longrightarrow> isl (Enum_from_xml e)"
    "\<forall>s. isl (bitfield_step pf s c) \<Longrightarrow> isl (BitField_from_xml e pf)"
    "\<forall>s. isl (compound_step s c) \<Longrightarrow> isl (Compound_from_xml e)"
    "\<forall>obj s. isl (niobject_step obj s c) \<Longrightarrow> isl (NiObject_from_xml e)"
proof -
  show "\<forall>s. isl (bitflags_step (attrib e) s c) \<Longrightarrow> isl (BitFlags_from_xml e)"
    using fold_result_isl [OF assms, of "bitflags_step (attrib e)" "[]"]
    by (auto simp: BitFlags_from_xml_def split: option.splits sum.splits)
  show "\<forall>s. isl (enum_step (attrib e) s c) \<Longrightarrow> isl (Enum_from_xml e)"
    using fold_result_isl [OF assms, of "enum_step (attrib e)" "[]"]
    by (auto simp: Enum_from_xml_def split: option.splits sum.splits)
  show "\<forall>s. isl (bitfield_step pf s c) \<Longrightarrow> isl (BitField_from_xml e pf)"
    using fold_result_isl [OF assms, of "bitfield_step pf" "[]"]
    by (auto simp: BitField_from_xml_def split: option.splits sum.splits)
  show "\<forall>s. isl (compound_step s c) \<Longrightarrow> isl (Compound_from_xml e)"
    using fold_result_isl [OF assms, of "compound_step" "[]"]
    by (auto simp: Compound_from_xml_def split: option.splits sum.splits)
  show "\<forall>obj s. isl (niobject_step obj s c) \<Longrightarrow> isl (NiObject_from_xml e)"
  proof -
    assume a: "\<forall>obj s. isl (niobject_step obj s c)"
    have "isl (fold_result (niobject_step obj) ([], []) (children e))" for obj
      using fold_result_isl [OF assms, of "niobject_step obj" "([], [])"] a by simp
    then have "\<And>obj st. fold_result (niobject_step obj) ([], []) (children e) \<noteq> Inr st"
      by (metis sum.disc(2))
    then show ?thesis
      by (auto simp: NiObject_from_xml_def split: option.splits sum.splits prod.splits)
  qed
qed

lemma compound_run_keys:
  "fold_result compound_step fs0 cs = Inr fs \<Longrightarrow> k \<in> fst ` set fs \<Longrightarrow>
     k \<in> fst ` set fs0
     \<or> (\<exists>c'\<in>set cs. \<exists>m. c' ''name'' = Some m \<and> convert_field_name m = k)"
proof (induction cs arbitrary: fs0)
  case Nil
  then show ?case by simp
next
  case (Cons c cs)
  from Cons.prems(1) obtain fs1 where
    st: "compound_step fs0 c = Inr fs1" and run: "fold_result compound_step fs1 cs = Inr fs"
    by (auto split: sum.splits)
  have one: "k' \<in> fst ` set fs0 \<or> (\<exists>m. c ''name'' = Some m \<and> convert_field_name m = k')"
    if "k' \<in> fst ` set fs1" for k'
    using st that
    by (auto simp: compound_step_def Let_def split: sum.splits if_splits option.splits)
  from Cons.IH [OF run Cons.prems(2)] one show ?case
    by auto
qed

lemma compound_member_without_type:
  assumes ch: "children e = cs @ c # rest"
    and run: "fold_result compound_step [] cs = Inr fs"
    and emit: "should_emit_member c = Inr True"
    and nm: "c ''name'' = Some n"
    and new: "map_of fs (convert_field_name n) = None"
    and ty: "c ''type'' = None"
  shows "isl (Compound_from_xml e)"
proof -
  have "compound_step fs c = Inl KeyError"
    using emit nm new ty by (simp add: compound_step_def Type_from_xml_def)
  then have "fold_result compound_step [] (children e) = Inl KeyError"
    using run by (simp add: ch fold_result_append)
  then show ?thesis
    by (simp add: Compound_from_xml_def split: option.splits sum.splits)
qed

text \<open>
  Claim C9, as the code has it. \<open>parse_expression\<close> raises on a text that has a
  parenthesis or an operator and that none of the three patterns matches, and an error of
  an operand is the error of the whole expression. \<open>Type.from_xml\<close> raises \<open>KeyError\<close>
  without \<open>type\<close>; every builder raises \<open>KeyError\<close> on an entry without \<open>name\<close>, the three
  storage-backed builders on an entry without \<open>storage\<close>, and \<open>NiObject.from_xml\<close> raises on
  an entry without \<open>inherit\<close>. A member that is emitted and has no \<open>name\<close> makes every builder
  raise. An emitted member without \<open>type\<close> makes \<open>BitField.from_xml\<close> and
  \<open>NiObject.from_xml\<close> raise, and \<open>Compound.from_xml\<close> when the fields collected before it
  do not hold its name, which is so whenever no earlier member has a name that converts to
  the same field name.
\<close>

theorem malformed_input_raises:
  "((CHR ''('' \<in> set expr \<or> CHR '')'' \<in> set expr \<or> contains_any_operator expr)
      \<and> search EXPR_RE_1 expr = None \<and> search EXPR_RE_2 expr = None
      \<and> search EXPR_RE_3 expr = None
     \<longrightarrow> parse_expression expr = Inl AttributeError)
   \<and> ((CHR ''('' \<in> set expr \<or> CHR '')'' \<in> set expr \<or> contains_any_operator expr)
        \<and> find_shape expr = Some sh \<and> left sh = Some l \<and> parse_expression l = Inl err
       \<longrightarrow> parse_expression expr = Inl err)
   \<and> (a ''type'' = None \<longrightarrow> Type_from_xml a = Inl KeyError)
   \<and> (attrib e ''name'' = None \<longrightarrow>
         BitFlags_from_xml e = Inl KeyError \<and> Enum_from_xml e = Inl KeyError
         \<and> BitField_from_xml e pf = Inl KeyError \<and> Compound_from_xml e = Inl KeyError
         \<and> NiObject_from_xml e = Inl KeyError)
   \<and> (attrib e ''storage'' = None \<longrightarrow>
         BitFlags_from_xml e = Inl KeyError \<and> Enum_from_xml e = Inl KeyError
         \<and> BitField_from_xml e pf = Inl KeyError)
   \<and> (attrib e ''inherit'' = None \<longrightarrow> isl (NiObject_from_xml e))
   \<and> (c \<in> set (children e) \<and> should_emit_member c = Inr True \<and> c ''name'' = None \<longrightarrow>
         isl (BitFlags_from_xml e) \<and> isl (Enum_from_xml e) \<and> isl (BitField_from_xml e pf)
         \<and> isl (Compound_from_xml e) \<and> isl (NiObject_from_xml e))
   \<and> (c \<in> set (children e) \<and> should_emit_member c = Inr True \<and> c ''type'' = None \<longrightarrow>
         isl (BitField_from_xml e pf) \<and> isl (NiObject_from_xml e))
   \<and> (children e = cs @ c # rest \<and> fold_result compound_step [] cs = Inr fs
        \<and> should_emit_member c = Inr True \<and> c ''name'' = Some n
        \<and> map_of fs (convert_field_name n) = None \<and> c ''type'' = None
       \<longrightarrow> isl (Compound_from_xml e))
   \<and> (children e = cs @ c # rest
        \<and> should_emit_member c = Inr True \<and> c ''name'' = Some n \<and> c ''type'' = None
        \<and> (\<forall>c'\<in>set cs. \<forall>m. c' ''name'' = Some m
               \<longrightarrow> convert_field_name m \<noteq> convert_field_name n)
       \<longrightarrow> isl (Compound_from_xml e))"
proof (intro conjI impI)
  show "parse_expression expr = Inl AttributeError"
    if "(CHR ''('' \<in> set expr \<or> CHR '')'' \<in> set expr \<or> contains_any_operator expr)
      \<and> search EXPR_RE_1 expr = None \<and> search EXPR_RE_2 expr = None
      \<and> search EXPR_RE_3 expr = None"
    using that by (subst parse_expression.simps) (simp add: find_shape_def)
  show "parse_expression expr = Inl err"
    if "(CHR ''('' \<in> set expr \<or> CHR '')'' \<in> set expr \<or> contains_any_operator expr)
        \<and> find_shape expr = Some sh \<and> left sh = Some l \<and> parse_expression l = Inl err"
    using that by (subst parse_expression.simps) simp
  show "Type_from_xml a = Inl KeyError" if "a ''type'' = None"
    using that by (simp add: Type_from_xml_def)
  show "BitFlags_from_xml e = Inl KeyError" "Enum_from_xml e = Inl KeyError"
    "BitField_from_xml e pf = Inl KeyError" "Compound_from_xml e = Inl KeyError"
    "NiObject_from_xml e = Inl KeyError" if "attrib e ''name'' = None"
    using that
    by (simp_all add: BitFlags_from_xml_def Enum_from_xml_def BitField_from_xml_def
        Compound_from_xml_def NiObject_from_xml_def)
  show "BitFlags_from_xml e = Inl KeyError" "Enum_from_xml e = Inl KeyError"
    "BitField_from_xml e pf = Inl KeyError" if "attrib e ''storage'' = None"
    using that
    by (simp_all add: BitFlags_from_xml_def Enum_from_xml_def BitField_from_xml_def
        storage_of_def split: option.splits)
  show "isl (NiObject_from_xml e)" if "attrib e ''inherit'' = None"
    using that by (simp add: NiObject_from_xml_def split: option.splits sum.splits)
next
  assume h: "c \<in> set (children e) \<and> should_emit_member c = Inr True \<and> c ''name'' = None"
  then have c: "c \<in> set (children e)" and m: "should_emit_member c = Inr True" "c ''name'' = None"
    by blast+
  show "isl (BitFlags_from_xml e)" "isl (Enum_from_xml e)" "isl (BitField_from_xml e pf)"
    "isl (Compound_from_xml e)" "isl (NiObject_from_xml e)"
    using builders_isl [OF c] member_without_name [OF m] by blast+
next
  assume h: "c \<in> set (children e) \<and> should_emit_member c = Inr True \<and> c ''type'' = None"
  then have c: "c \<in> set (children e)" and m: "should_emit_member c = Inr True" "c ''type'' = None"
    by blast+
  show "isl (BitField_from_xml e pf)" "isl (NiObject_from_xml e)"
    using builders_isl [OF c] member_without_type [OF m] by blast+
next
  assume "children e = cs @ c # rest \<and> fold_result compound_step [] cs = Inr fs
        \<and> should_emit_member c = Inr True \<and> c ''name'' = Some n
        \<and> map_of fs (convert_field_name n) = None \<and> c ''type'' = None"
  then show "isl (Compound_from_xml e)"
    using compound_member_without_type [of e cs c rest fs n] by blast
next
  assume h: "children e = cs @ c # rest
        \<and> should_emit_member c = Inr True \<and> c ''name'' = Some n \<and> c ''type'' = None
        \<and> (\<forall>c'\<in>set cs. \<forall>m. c' ''name'' = Some m
               \<longrightarrow> convert_field_name m \<noteq> convert_field_name n)"
  then have ch: "children e = cs @ c # rest" and emit: "should_emit_member c = Inr True"
    and nm: "c ''name'' = Some n" and ty: "c ''type'' = None"
    and fresh: "\<forall>c'\<in>set cs. \<forall>m. c' ''name'' = Some m
               \<longrightarrow> convert_field_name m \<noteq> convert_field_name n"
    by blast+
  show "isl (Compound_from_xml e)"
  proof (cases "fold_result compound_step [] cs")
    case (Inl err')
    then have "fold_result compound_step [] (children e) = Inl err'"
      by (simp add: ch fold_result_append)
    then show ?thesis
      by (simp add: Compound_from_xml_def split: option.splits sum.splits)
  next
    case (Inr fs')
    have "convert_field_name n \<notin> fst ` set fs'"
      using compound_run_keys [OF Inr, of "convert_field_name n"] fresh by auto
    then have "map_of fs' (convert_field_name n) = None"
      by (simp add: map_of_eq_None_iff)
    from compound_member_without_type [OF ch Inr emit nm this ty] show ?thesis .
  qed
qed

text \<open>The second member has no \<open>type\<close>, and its name converts to the field name of the
  first: the loop skips it before its type is read, and a compound is returned.\<close>

theorem compound_member_without_type_counterexample:
  "[''name'' \<mapsto> ''X''] ''type'' = None
   \<and> should_emit_member [''name'' \<mapsto> ''X''] = Inr True
   \<and> Compound_from_xml
        \<lparr>attrib = [''name'' \<mapsto> ''Foo''], entry_text = None,
         children = [[''name'' \<mapsto> ''x'', ''type'' \<mapsto> ''int''], [''name'' \<mapsto> ''X'']]\<rparr>
       = Inr \<lparr>Compound.name = ''Foo'', doc = [], generic = False,
              fields' = [(''x'', \<lparr>ty = ''i32'', t_arg = None, arr1 = None, arr2 = None,
                                  arg = None, cond = None, ver1 = None, ver2 = None\<rparr>)]\<rparr>"
  by code_simp

theorem malformed_input_raises_witness:
  "CHR ''('' \<in> set ''(y)'' \<and> search EXPR_RE_1 ''(y)'' = None \<and> search EXPR_RE_2 ''(y)'' = None
   \<and> search EXPR_RE_3 ''(y)'' = None \<and> parse_expression ''(y)'' = Inl AttributeError
   \<and> find_shape ''(y) #ADD# a''
       = Some \<lparr>unary = None, left = Some ''(y)'', oper = Some ''#ADD#'', right = Some ''a''\<rparr>
   \<and> parse_expression ''(y) #ADD# a'' = Inl AttributeError
   \<and> Type_from_xml [''name'' \<mapsto> ''x''] = Inl KeyError
   \<and> NiObject_from_xml \<lparr>attrib = [''inherit'' \<mapsto> ''NiObject''], entry_text = None, children = []\<rparr>
       = Inl KeyError
   \<and> BitFlags_from_xml \<lparr>attrib = [''name'' \<mapsto> ''Flags''], entry_text = None, children = []\<rparr>
       = Inl KeyError
   \<and> isl (NiObject_from_xml \<lparr>attrib = [''name'' \<mapsto> ''Foo''], entry_text = None, children = []\<rparr>)
   \<and> should_emit_member [''type'' \<mapsto> ''uint''] = Inr True
   \<and> isl (Compound_from_xml \<lparr>attrib = [''name'' \<mapsto> ''Foo''], entry_text = None,
                              children = [[''type'' \<mapsto> ''uint'']]\<rparr>)
   \<and> should_emit_member [''name'' \<mapsto> ''x''] = Inr True
   \<and> isl (NiObject_from_xml \<lparr>attrib = [''name'' \<mapsto> ''Foo'', ''inherit'' \<mapsto> ''NiObject''],
                              entry_text = None, children = [[''name'' \<mapsto> ''x'']]\<rparr>)
   \<and> fold_result compound_step [] [[''name'' \<mapsto> ''x'', ''type'' \<mapsto> ''int'']]
       = Inr [(''x'', \<lparr>ty = ''i32'', t_arg = None, arr1 = None, arr2 = None,
                       arg = None, cond = None, ver1 = None, ver2 = None\<rparr>)]
   \<and> should_emit_member [''name'' \<mapsto> ''y''] = Inr True
   \<and> convert_field_name ''x'' = ''x'' \<and> convert_field_name ''y'' = ''y''
   \<and> isl (Compound_from_xml
            \<lparr>attrib = [''name'' \<mapsto> ''Foo''], entry_text = None,
             children = [[''name'' \<mapsto> ''x'', ''type'' \<mapsto> ''int''], [''name'' \<mapsto> ''y'']]\<rparr>)
   \<and> isl (Compound_from_xml
            \<lparr>attrib = [''name'' \<mapsto> ''Bar''], entry_text = None,
             children = [[''name'' \<mapsto> ''x'', ''type'' \<mapsto> ''int''], [''name'' \<mapsto> ''y'']]\<rparr>)"
proof -
  let ?x = "[''name'' \<mapsto> ''x'', ''type'' \<mapsto> ''int'']"
  let ?y = "[''name'' \<mapsto> ''y''] :: attrib"
  let ?fs = "[(''x'', \<lparr>ty = ''i32'', t_arg = None, arr1 = None, arr2 = None,
                       arg = None, cond = None, ver1 = None, ver2 = None\<rparr>)]"
  have s: "CHR ''('' \<in> set ''(y)''" "search EXPR_RE_1 ''(y)'' = None"
    "search EXPR_RE_2 ''(y)'' = None" "search EXPR_RE_3 ''(y)'' = None"
    by code_simp+
  have p: "CHR ''('' \<in> set ''(y) #ADD# a''"
    by simp
  have f: "find_shape ''(y) #ADD# a''
       = Some \<lparr>unary = None, left = Some ''(y)'', oper = Some ''#ADD#'', right = Some ''a''\<rparr>"
    by code_simp
  have m1: "should_emit_member [''type'' \<mapsto> ''uint''] = Inr True"
    by code_simp
  have m2: "should_emit_member [''name'' \<mapsto> ''x''] = Inr True"
    by code_simp
  have m3: "should_emit_member ?y = Inr True"
    by code_simp
  have run: "fold_result compound_step [] [?x] = Inr ?fs"
    by code_simp
  have cx: "convert_field_name ''x'' = ''x''" and cy: "convert_field_name ''y'' = ''y''"
    by code_simp+
  have new: "map_of ?fs (convert_field_name ''y'') = None"
    by (simp add: cy)
  have fresh: "\<forall>c'\<in>set [?x]. \<forall>m. c' ''name'' = Some m
                 \<longrightarrow> convert_field_name m \<noteq> convert_field_name ''y''"
    by (simp add: cx cy)
  note t1 = malformed_input_raises [where expr = "''(y)''" and a = "[''name'' \<mapsto> ''x'']"
      and e = "\<lparr>attrib = [''inherit'' \<mapsto> ''NiObject''], entry_text = None, children = []\<rparr>"]
  note t2 = malformed_input_raises [where expr = "''(y) #ADD# a''" and l = "''(y)''"
      and err = AttributeError
      and sh = "\<lparr>unary = None, left = Some ''(y)'', oper = Some ''#ADD#'', right = Some ''a''\<rparr>"
      and e = "\<lparr>attrib = [''name'' \<mapsto> ''Flags''], entry_text = None, children = []\<rparr>"]
  note t3 = malformed_input_raises [where c = "[''type'' \<mapsto> ''uint'']"
      and e = "\<lparr>attrib = [''name'' \<mapsto> ''Foo''], entry_text = None,
                 children = [[''type'' \<mapsto> ''uint'']]\<rparr>"]
  note t4 = malformed_input_raises [where c = "[''name'' \<mapsto> ''x'']"
      and e = "\<lparr>attrib = [''name'' \<mapsto> ''Foo'', ''inherit'' \<mapsto> ''NiObject''],
                 entry_text = None, children = [[''name'' \<mapsto> ''x'']]\<rparr>"]
  note t5 = malformed_input_raises
      [where e = "\<lparr>attrib = [''name'' \<mapsto> ''Foo''], entry_text = None, children = []\<rparr>"]
  note t6 = malformed_input_raises [where c = ?y and cs = "[?x]" and rest = "[]"
      and fs = ?fs and n = "''y''"
      and e = "\<lparr>attrib = [''name'' \<mapsto> ''Foo''], entry_text = None, children = [?x, ?y]\<rparr>"]
  note t7 = malformed_input_raises [where c = ?y and cs = "[?x]" and rest = "[]"
      and n = "''y''"
      and e = "\<lparr>attrib = [''name'' \<mapsto> ''Bar''], entry_text = None, children = [?x, ?y]\<rparr>"]
  have a1: "parse_expression ''(y)'' = Inl AttributeError"
    using t1 s by blast
  have a2: "parse_expression ''(y) #ADD# a'' = Inl AttributeError"
    using t2 p f a1 by simp
  have a3: "Type_from_xml [''name'' \<mapsto> ''x''] = Inl KeyError"
    using t1 by simp
  have a4: "NiObject_from_xml \<lparr>attrib = [''inherit'' \<mapsto> ''NiObject''], entry_text = None, children = []\<rparr>
       = Inl KeyError"
    using t1 by simp
  have a5: "BitFlags_from_xml \<lparr>attrib = [''name'' \<mapsto> ''Flags''], entry_text = None, children = []\<rparr>
       = Inl KeyError"
    using t2 by simp
  have a6: "isl (Compound_from_xml \<lparr>attrib = [''name'' \<mapsto> ''Foo''], entry_text = None,
                              children = [[''type'' \<mapsto> ''uint'']]\<rparr>)"
    using t3 m1 by simp
  have a7: "isl (NiObject_from_xml \<lparr>attrib = [''name'' \<mapsto> ''Foo'', ''inherit'' \<mapsto> ''NiObject''],
                              entry_text = None, children = [[''name'' \<mapsto> ''x'']]\<rparr>)"
    using t4 m2 by simp
  have a8: "isl (NiObject_from_xml \<lparr>attrib = [''name'' \<mapsto> ''Foo''], entry_text = None, children = []\<rparr>)"
    using t5 by simp
  have a9: "isl (Compound_from_xml
            \<lparr>attrib = [''name'' \<mapsto> ''Foo''], entry_text = None, children = [?x, ?y]\<rparr>)"
    using t6 run m3 new by simp
  have a10: "isl (Compound_from_xml
            \<lparr>attrib = [''name'' \<mapsto> ''Bar''], entry_text = None, children = [?x, ?y]\<rparr>)"
    using t7 m3 fresh by simp
  show ?thesis
    by (intro conjI) (rule s f a1 a2 a3 a4 a5 a6 a7 a8 a9 a10 m1 m2 m3 run cx cy)+
qed

section \<open>Properties of the field merge\<close>

lemma niobject_merge_distinct:
  assumes "distinct (map fst fs)" and "niobject_merge obj x new (fs, out) = (fs', out')"
  shows "distinct (map fst fs')"
proof (cases "map_of fs x")
  case None
  then have "x \<notin> fst ` set fs" by (simp add: map_of_eq_None_iff)
  with assms None show ?thesis
    by (auto simp: niobject_merge_def Let_def)
next
  case (Some old)
  with assms show ?thesis
    by (auto simp: niobject_merge_def distinct_update split: if_splits)
qed

lemma niobject_step_distinct:
  assumes "distinct (map fst fs)" and "niobject_step obj (fs, out) f = Inr (fs', out')"
  shows "distinct (map fst fs')"
  using assms niobject_merge_distinct [OF assms(1)]
  by (auto simp: niobject_step_def split: sum.splits if_splits option.splits)

lemma niobject_run_distinct:
  "fold_result (niobject_step obj) (fs0, out0) cs = Inr (fs, out) \<Longrightarrow>
     distinct (map fst fs0) \<Longrightarrow> distinct (map fst fs)"
proof (induction cs arbitrary: fs0 out0)
  case Nil
  then show ?case by simp
next
  case (Cons c cs)
  from Cons.prems(1) obtain fs1 out1
    where s: "niobject_step obj (fs0, out0) c = Inr (fs1, out1)"
      and r: "fold_result (niobject_step obj) (fs1, out1) cs = Inr (fs, out)"
    by (auto split: sum.splits)
  from niobject_step_distinct [OF Cons.prems(2) s] Cons.IH [OF r] show ?case by simp
qed

lemma niobject_next:
  assumes "fold_result (niobject_step obj) ([], []) cs = Inr st"
    and "should_emit_member f = Inr True" and "f ''name'' = Some n"
    and "Type_from_xml f = Inr new"
  shows "fold_result (niobject_step obj) ([], []) (cs @ [f])
           = Inr (niobject_merge obj (convert_field_name n) new st)"
  using assms by (simp add: fold_result_append niobject_step_def)

lemma niobject_merge_absent:
  "map_of fs x = None \<Longrightarrow>
     niobject_merge obj x new (fs, out)
       = (fs @ [(x, if obj = ''NiPalette'' \<and> x = ''palette''
                    then new\<lparr>arr1 := Some ''Num Entries'', cond := None\<rparr> else new)], out)"
  by (simp add: niobject_merge_def)

lemma niobject_merge_present:
  assumes "map_of fs x = Some old"
  shows "niobject_merge obj x new (fs, out) =
           (if \<not> truthy (cond new) \<and> \<not> truthy (cond old) then (fs, out)
            else if \<not> matches_type new old \<and> (obj \<noteq> ''NiPalette'' \<or> x \<noteq> ''palette'')
              then (fs, out @ redeclaration_lines obj x old new)
            else (AList.update x
                    (old\<lparr>cond := Some (''('' @ py_str (cond old) @ '') #OR# (''
                                        @ py_str (cond new) @ '')'')\<rparr>) fs, out))"
  using assms by (simp add: niobject_merge_def)

lemma update_present_keys:
  "map_of fs x = Some old \<Longrightarrow> map fst (AList.update x v fs) = map fst fs"
  by (simp add: update_keys map_of_eq_Some_iff weak_map_of_SomeI)
    (metis domI dom_map_of_conv_image_fst image_set)

text \<open>
  Claim C5, as the code has it. Let \<open>NiObject.from_xml\<close> have built the dictionary \<open>fs\<close> from the
  entries before a field \<open>f\<close> that is emitted, has the converted name \<open>x\<close> and the type \<open>new\<close>.
  If \<open>x\<close> is new, the field is stored at the end; for \<open>NiPalette.palette\<close> it is stored with
  \<open>arr1\<close> set to \<open>Num Entries\<close> and without condition. If \<open>x\<close> recurs, with the stored type \<open>old\<close>,
  the keys and every other entry stay as they are, and:
  (a) if neither \<open>new\<close> nor \<open>old\<close> has a non-empty condition, nothing changes;
  (b) otherwise, if the shapes match, nothing is printed and the one stored field gets the
      condition \<open>(cond old) #OR# (cond new)\<close>, which is \<open>(A) #OR# (A)\<close> for two equal non-empty
      conditions \<open>A\<close>;
  (c) otherwise, outside \<open>NiPalette.palette\<close>, the three lines of the diagnostic are printed
      and the dictionary stays as it is.
  A recurring \<open>NiPalette.palette\<close> is never reported and changes at most the condition of the
  stored field.
\<close>

theorem niobject_field_merge:
  assumes run: "fold_result (niobject_step obj) ([], []) cs = Inr (fs, out)"
    and emit: "should_emit_member f = Inr True"
    and nm: "f ''name'' = Some n"
    and ty: "Type_from_xml f = Inr new"
    and x: "x = convert_field_name n"
  shows "\<exists>fs' out'.
      fold_result (niobject_step obj) ([], []) (cs @ [f]) = Inr (fs', out')
      \<and> distinct (map fst fs')
      \<and> (map_of fs x = None \<longrightarrow>
            out' = out
            \<and> fs' = fs @ [(x, if obj = ''NiPalette'' \<and> x = ''palette''
                              then new\<lparr>arr1 := Some ''Num Entries'', cond := None\<rparr>
                              else new)])
      \<and> (\<forall>old. map_of fs x = Some old \<longrightarrow>
            map fst fs' = map fst fs
            \<and> (\<forall>y. y \<noteq> x \<longrightarrow> map_of fs' y = map_of fs y)
            \<and> (\<not> truthy (cond new) \<and> \<not> truthy (cond old) \<longrightarrow> fs' = fs \<and> out' = out)
            \<and> ((truthy (cond new) \<or> truthy (cond old)) \<and> matches_type new old \<longrightarrow>
                  out' = out
                  \<and> map_of fs' x
                      = Some (old\<lparr>cond := Some (''('' @ py_str (cond old) @ '') #OR# (''
                                                @ py_str (cond new) @ '')'')\<rparr>))
            \<and> (\<forall>A. A \<noteq> [] \<and> cond old = Some A \<and> cond new = Some A \<and> matches_type new old \<longrightarrow>
                  map_of fs' x = Some (old\<lparr>cond := Some (''('' @ A @ '') #OR# ('' @ A @ '')'')\<rparr>))
            \<and> ((truthy (cond new) \<or> truthy (cond old)) \<and> \<not> matches_type new old
                 \<and> (obj \<noteq> ''NiPalette'' \<or> x \<noteq> ''palette'') \<longrightarrow>
                  fs' = fs \<and> out' = out @ redeclaration_lines obj x old new)
            \<and> (obj = ''NiPalette'' \<and> x = ''palette'' \<longrightarrow>
                  out' = out \<and> (\<exists>c. map_of fs' x = Some (old\<lparr>cond := c\<rparr>))))"
proof -
  obtain fs' out' where m: "niobject_merge obj x new (fs, out) = (fs', out')"
    by (cases "niobject_merge obj x new (fs, out)") auto
  have step: "fold_result (niobject_step obj) ([], []) (cs @ [f]) = Inr (fs', out')"
    using niobject_next [OF run emit nm ty] m x by simp
  have d: "distinct (map fst fs')"
    using niobject_run_distinct [OF step] by simp
  have absent: "out' = out
            \<and> fs' = fs @ [(x, if obj = ''NiPalette'' \<and> x = ''palette''
                              then new\<lparr>arr1 := Some ''Num Entries'', cond := None\<rparr>
                              else new)]" if "map_of fs x = None"
    using niobject_merge_absent [OF that, of obj new out] m by simp
  have present: "map fst fs' = map fst fs
            \<and> (\<forall>y. y \<noteq> x \<longrightarrow> map_of fs' y = map_of fs y)
            \<and> (\<not> truthy (cond new) \<and> \<not> truthy (cond old) \<longrightarrow> fs' = fs \<and> out' = out)
            \<and> ((truthy (cond new) \<or> truthy (cond old)) \<and> matches_type new old \<longrightarrow>
                  out' = out
                  \<and> map_of fs' x
                      = Some (old\<lparr>cond := Some (''('' @ py_str (cond old) @ '') #OR# (''
                                                @ py_str (cond new) @ '')'')\<rparr>))
            \<and> (\<forall>A. A \<noteq> [] \<and> cond old = Some A \<and> cond new = Some A \<and> matches_type new old \<longrightarrow>
                  map_of fs' x = Some (old\<lparr>cond := Some (''('' @ A @ '') #OR# ('' @ A @ '')'')\<rparr>))
            \<and> ((truthy (cond new) \<or> truthy (cond old)) \<and> \<not> matches_type new old
                 \<and> (obj \<noteq> ''NiPalette'' \<or> x \<noteq> ''palette'') \<longrightarrow>
                  fs' = fs \<and> out' = out @ redeclaration_lines obj x old new)
            \<and> (obj = ''NiPalette'' \<and> x = ''palette'' \<longrightarrow>
                  out' = out \<and> (\<exists>c. map_of fs' x = Some (old\<lparr>cond := c\<rparr>)))"
    if old: "map_of fs x = Some old" for old
  proof -
    note eq = niobject_merge_present [OF old, of obj new out, unfolded m]
    note keys = update_present_keys [OF old]
    have same: "old\<lparr>cond := cond old\<rparr> = old" by simp
    show ?thesis
    proof (intro conjI allI impI)
      show "map fst fs' = map fst fs"
        using eq keys by (auto split: if_splits)
      show "map_of fs' y = map_of fs y" if "y \<noteq> x" for y
        using eq that by (auto simp: update_conv' split: if_splits)
      show "fs' = fs" "out' = out" if "\<not> truthy (cond new) \<and> \<not> truthy (cond old)"
        using eq that by auto
      show "out' = out" if "(truthy (cond new) \<or> truthy (cond old)) \<and> matches_type new old"
        using eq that by (auto split: if_splits)
      show "map_of fs' x
              = Some (old\<lparr>cond := Some (''('' @ py_str (cond old) @ '') #OR# (''
                                        @ py_str (cond new) @ '')'')\<rparr>)"
        if "(truthy (cond new) \<or> truthy (cond old)) \<and> matches_type new old"
        using eq that by (auto simp: update_conv' split: if_splits)
      show "map_of fs' x = Some (old\<lparr>cond := Some (''('' @ A @ '') #OR# ('' @ A @ '')'')\<rparr>)"
        if "A \<noteq> [] \<and> cond old = Some A \<and> cond new = Some A \<and> matches_type new old" for A
        using eq that by (auto simp: update_conv' truthy_def py_str_def split: if_splits)
      show "fs' = fs" "out' = out @ redeclaration_lines obj x old new"
        if "(truthy (cond new) \<or> truthy (cond old)) \<and> \<not> matches_type new old
             \<and> (obj \<noteq> ''NiPalette'' \<or> x \<noteq> ''palette'')"
        using eq that by (auto split: if_splits)
      show "out' = out" if "obj = ''NiPalette'' \<and> x = ''palette''"
        using eq that by (auto split: if_splits)
      show "\<exists>c. map_of fs' x = Some (old\<lparr>cond := c\<rparr>)" if "obj = ''NiPalette'' \<and> x = ''palette''"
      proof (cases "\<not> truthy (cond new) \<and> \<not> truthy (cond old)")
        case True
        with eq old same have "map_of fs' x = Some (old\<lparr>cond := cond old\<rparr>)" by simp
        then show ?thesis ..
      next
        case False
        with eq that have "map_of fs' x
              = Some (old\<lparr>cond := Some (''('' @ py_str (cond old) @ '') #OR# (''
                                        @ py_str (cond new) @ '')'')\<rparr>)"
          by (auto simp: update_conv' split: if_splits)
        then show ?thesis ..
      qed
    qed
  qed
  show ?thesis
  proof (intro exI conjI)
    show "fold_result (niobject_step obj) ([], []) (cs @ [f]) = Inr (fs', out')" by (rule step)
    show "distinct (map fst fs')" by (rule d)
  qed (use absent present in blast)+
qed

text \<open>The entry of \<open>NiPalette\<close> with its two declarations of \<open>Palette\<close>: the first is
  normalised when it is stored, the second is merged into it, although its \<open>arr1\<close> differs,
  and is not normalised.\<close>

theorem nipalette_second_occurrence_counterexample:
  "NiObject_from_xml
     \<lparr>attrib = [''name'' \<mapsto> ''NiPalette'', ''inherit'' \<mapsto> ''NiObject''], entry_text = None,
      children =
        [[''name'' \<mapsto> ''Palette'', ''type'' \<mapsto> ''ByteColor4'', ''arr1'' \<mapsto> ''16'',
          ''cond'' \<mapsto> ''Num Entries #EQ# 16''],
         [''name'' \<mapsto> ''Palette'', ''type'' \<mapsto> ''ByteColor4'', ''arr1'' \<mapsto> ''256'',
          ''cond'' \<mapsto> ''Num Entries #NEQ# 16'']]\<rparr>
   = Inr (\<lparr>NiObject.name = ''NiPalette'', NiObject.doc = [], NiObject.parent = ''NiObject'',
           NiObject.fields' =
             [(''palette'',
               \<lparr>ty = ''ByteColor4'', t_arg = None, arr1 = Some ''Num Entries'', arr2 = None,
                arg = None, cond = Some ''(None) #OR# (Num Entries #NEQ# 16)'',
                ver1 = None, ver2 = None\<rparr>)]\<rparr>, [])"
  by code_simp

theorem niobject_field_merge_witness:
  "fold_result (niobject_step ''Foo'') ([], [])
     [[''name'' \<mapsto> ''X'', ''type'' \<mapsto> ''byte'', ''cond'' \<mapsto> ''A'']]
     = Inr ([(''x'', \<lparr>ty = ''u8'', t_arg = None, arr1 = None, arr2 = None, arg = None,
                      cond = Some ''A'', ver1 = None, ver2 = None\<rparr>)], [])
   \<and> should_emit_member [''name'' \<mapsto> ''x'', ''type'' \<mapsto> ''byte'', ''cond'' \<mapsto> ''A''] = Inr True
   \<and> Type_from_xml [''name'' \<mapsto> ''x'', ''type'' \<mapsto> ''byte'', ''cond'' \<mapsto> ''A'']
       = Inr \<lparr>ty = ''u8'', t_arg = None, arr1 = None, arr2 = None, arg = None,
              cond = Some ''A'', ver1 = None, ver2 = None\<rparr>
   \<and> ''x'' = convert_field_name ''x''
   \<and> fold_result (niobject_step ''Foo'') ([], [])
        ([[''name'' \<mapsto> ''X'', ''type'' \<mapsto> ''byte'', ''cond'' \<mapsto> ''A'']]
         @ [[''name'' \<mapsto> ''x'', ''type'' \<mapsto> ''byte'', ''cond'' \<mapsto> ''A'']])
       = Inr ([(''x'', \<lparr>ty = ''u8'', t_arg = None, arr1 = None, arr2 = None, arg = None,
                        cond = Some ''(A) #OR# (A)'', ver1 = None, ver2 = None\<rparr>)], [])
   \<and> map_of [(''x'', \<lparr>ty = ''u8'', t_arg = None, arr1 = None, arr2 = None, arg = None,
                        cond = Some ''(A) #OR# (A)'', ver1 = None, ver2 = None\<rparr>)] ''x''
       = Some (\<lparr>ty = ''u8'', t_arg = None, arr1 = None, arr2 = None, arg = None,
                cond = Some ''A'', ver1 = None, ver2 = None\<rparr>
               \<lparr>cond := Some (''('' @ ''A'' @ '') #OR# ('' @ ''A'' @ '')'')\<rparr>)"
proof -
  let ?c = "[''name'' \<mapsto> ''X'', ''type'' \<mapsto> ''byte'', ''cond'' \<mapsto> ''A'']"
  let ?f = "[''name'' \<mapsto> ''x'', ''type'' \<mapsto> ''byte'', ''cond'' \<mapsto> ''A'']"
  let ?t = "\<lparr>ty = ''u8'', t_arg = None, arr1 = None, arr2 = None, arg = None,
             cond = Some ''A'', ver1 = None, ver2 = None\<rparr>"
  let ?t' = "\<lparr>ty = ''u8'', t_arg = None, arr1 = None, arr2 = None, arg = None,
              cond = Some ''(A) #OR# (A)'', ver1 = None, ver2 = None\<rparr>"
  have run: "fold_result (niobject_step ''Foo'') ([], []) [?c] = Inr ([(''x'', ?t)], [])"
    by code_simp
  have emit: "should_emit_member ?f = Inr True"
    by code_simp
  have nm: "?f ''name'' = Some ''x''"
    by simp
  have ty: "Type_from_xml ?f = Inr ?t"
    by code_simp
  have x: "''x'' = convert_field_name ''x''"
    by code_simp
  have old: "map_of [(''x'', ?t)] ''x'' = Some ?t"
    by simp
  have m: "(truthy (cond ?t) \<or> truthy (cond ?t)) \<and> matches_type ?t ?t"
    by (simp add: matches_type_def truthy_def)
  have A: "A \<noteq> [] \<and> cond ?t = Some A \<and> cond ?t = Some A \<and> matches_type ?t ?t" if "A = ''A''" for A
    using that by (simp add: matches_type_def)
  have both: "fold_result (niobject_step ''Foo'') ([], []) ([?c] @ [?f]) = Inr ([(''x'', ?t')], [])"
    by code_simp
  have merged: "map_of [(''x'', ?t')] ''x''
                  = Some (?t\<lparr>cond := Some (''('' @ ''A'' @ '') #OR# ('' @ ''A'' @ '')'')\<rparr>)"
    using niobject_field_merge [OF run emit nm ty x, unfolded both]
    by simp
  show ?thesis
    by (intro conjI) (rule run emit ty x both merged)+
qed

text \<open>
  Claim C10: \<open>Type.matches\<close> looks at the base type, the generic argument, both array
  expressions and the argument expression only, so types that differ in \<open>cond\<close>, \<open>ver1\<close> or
  \<open>ver2\<close> still match. When \<open>NiObject.from_xml\<close> merges a recurring field of matching shape,
  the stored field changes in its \<open>cond\<close> and nowhere else: \<open>ty\<close>, \<open>t_arg\<close>, \<open>arr1\<close>, \<open>arr2\<close>, \<open>arg\<close>,
  \<open>ver1\<close> and \<open>ver2\<close> of the first occurrence stay, nothing is printed, and the outcome is the
  same whatever \<open>ver1\<close> and \<open>ver2\<close> the second occurrence carries.
\<close>

theorem merge_changes_cond_only:
  assumes run: "fold_result (niobject_step obj) ([], []) cs = Inr (fs, out)"
    and emit: "should_emit_member f = Inr True"
    and nm: "f ''name'' = Some n"
    and ty: "Type_from_xml f = Inr new"
    and old: "map_of fs (convert_field_name n) = Some old"
    and shape: "matches_type new old"
    and conds: "truthy (cond new) \<or> truthy (cond old)"
  shows "matches_type (t\<lparr>cond := c1, ver1 := a1, ver2 := b1\<rparr>) (u\<lparr>cond := c2, ver1 := a2, ver2 := b2\<rparr>)
           = matches_type t u
   \<and> (\<exists>fs' stored.
         fold_result (niobject_step obj) ([], []) (cs @ [f]) = Inr (fs', out)
         \<and> map fst fs' = map fst fs
         \<and> (\<forall>y. y \<noteq> convert_field_name n \<longrightarrow> map_of fs' y = map_of fs y)
         \<and> map_of fs' (convert_field_name n) = Some stored
         \<and> stored = old\<lparr>cond := cond stored\<rparr>
         \<and> ty stored = ty old \<and> t_arg stored = t_arg old \<and> arr1 stored = arr1 old
         \<and> arr2 stored = arr2 old \<and> arg stored = arg old
         \<and> ver1 stored = ver1 old \<and> ver2 stored = ver2 old
         \<and> (\<forall>a b. niobject_merge obj (convert_field_name n) (new\<lparr>ver1 := a, ver2 := b\<rparr>) (fs, out)
                    = (fs', out)))"
proof
  show "matches_type (t\<lparr>cond := c1, ver1 := a1, ver2 := b1\<rparr>) (u\<lparr>cond := c2, ver1 := a2, ver2 := b2\<rparr>)
           = matches_type t u"
    by (simp add: matches_type_def)
next
  let ?x = "convert_field_name n"
  let ?stored = "old\<lparr>cond := Some (''('' @ py_str (cond old) @ '') #OR# ('' @ py_str (cond new) @ '')'')\<rparr>"
  let ?fs' = "AList.update ?x ?stored fs"
  have c: "\<not> (\<not> truthy (cond new) \<and> \<not> truthy (cond old))"
    using conds by blast
  have d: "\<not> (\<not> matches_type new old \<and> (obj \<noteq> ''NiPalette'' \<or> ?x \<noteq> ''palette''))"
    using shape by blast
  have m: "niobject_merge obj ?x new (fs, out) = (?fs', out)"
    unfolding niobject_merge_present [OF old] if_not_P [OF c] if_not_P [OF d] by (rule refl)
  have step: "fold_result (niobject_step obj) ([], []) (cs @ [f]) = Inr (?fs', out)"
    using niobject_next [OF run emit nm ty] m by simp
  have indep: "niobject_merge obj ?x (new\<lparr>ver1 := a, ver2 := b\<rparr>) (fs, out) = (?fs', out)" for a b
  proof -
    let ?new = "new\<lparr>ver1 := a, ver2 := b\<rparr>"
    have "matches_type ?new old"
      using shape by (simp add: matches_type_def)
    then have d': "\<not> (\<not> matches_type ?new old \<and> (obj \<noteq> ''NiPalette'' \<or> ?x \<noteq> ''palette''))"
      by blast
    have e: "cond ?new = cond new"
      by simp
    show ?thesis
      unfolding niobject_merge_present [OF old] e if_not_P [OF c] if_not_P [OF d'] by (rule refl)
  qed
  have keys: "map fst ?fs' = map fst fs"
    by (rule update_present_keys [OF old])
  have others: "\<forall>y. y \<noteq> ?x \<longrightarrow> map_of ?fs' y = map_of fs y"
    by (simp add: update_conv')
  have stored: "map_of ?fs' ?x = Some ?stored"
    by (simp add: update_conv')
  show "\<exists>fs' stored.
         fold_result (niobject_step obj) ([], []) (cs @ [f]) = Inr (fs', out)
         \<and> map fst fs' = map fst fs
         \<and> (\<forall>y. y \<noteq> ?x \<longrightarrow> map_of fs' y = map_of fs y)
         \<and> map_of fs' ?x = Some stored
         \<and> stored = old\<lparr>cond := cond stored\<rparr>
         \<and> ty stored = ty old \<and> t_arg stored = t_arg old \<and> arr1 stored = arr1 old
         \<and> arr2 stored = arr2 old \<and> arg stored = arg old
         \<and> ver1 stored = ver1 old \<and> ver2 stored = ver2 old
         \<and> (\<forall>a b. niobject_merge obj ?x (new\<lparr>ver1 := a, ver2 := b\<rparr>) (fs, out) = (fs', out))"
  proof (intro exI conjI)
    show "fold_result (niobject_step obj) ([], []) (cs @ [f]) = Inr (?fs', out)" by (rule step)
    show "map fst ?fs' = map fst fs" by (rule keys)
    show "\<forall>y. y \<noteq> ?x \<longrightarrow> map_of ?fs' y = map_of fs y" by (rule others)
    show "map_of ?fs' ?x = Some ?stored" by (rule stored)
    show "\<forall>a b. niobject_merge obj ?x (new\<lparr>ver1 := a, ver2 := b\<rparr>) (fs, out) = (?fs', out)"
      using indep by blast
  qed simp_all
qed

theorem merge_changes_cond_only_witness:
  "fold_result (niobject_step ''Foo'') ([], [])
     [[''name'' \<mapsto> ''X'', ''type'' \<mapsto> ''byte'', ''cond'' \<mapsto> ''A'', ''ver1'' \<mapsto> ''20.1.0.3'']]
     = Inr ([(''x'', \<lparr>ty = ''u8'', t_arg = None, arr1 = None, arr2 = None, arg = None,
                      cond = Some ''A'', ver1 = Some ''20.1.0.3'', ver2 = None\<rparr>)], [])
   \<and> should_emit_member [''name'' \<mapsto> ''x'', ''type'' \<mapsto> ''byte'', ''cond'' \<mapsto> ''B'',
                          ''ver1'' \<mapsto> ''20.2.0.7'', ''ver2'' \<mapsto> ''20.6.0.0''] = Inr True
   \<and> Type_from_xml [''name'' \<mapsto> ''x'', ''type'' \<mapsto> ''byte'', ''cond'' \<mapsto> ''B'',
                     ''ver1'' \<mapsto> ''20.2.0.7'', ''ver2'' \<mapsto> ''20.6.0.0'']
       = Inr \<lparr>ty = ''u8'', t_arg = None, arr1 = None, arr2 = None, arg = None,
              cond = Some ''B'', ver1 = Some ''20.2.0.7'', ver2 = Some ''20.6.0.0''\<rparr>
   \<and> fold_result (niobject_step ''Foo'') ([], [])
       ([[''name'' \<mapsto> ''X'', ''type'' \<mapsto> ''byte'', ''cond'' \<mapsto> ''A'', ''ver1'' \<mapsto> ''20.1.0.3'']]
        @ [[''name'' \<mapsto> ''x'', ''type'' \<mapsto> ''byte'', ''cond'' \<mapsto> ''B'',
            ''ver1'' \<mapsto> ''20.2.0.7'', ''ver2'' \<mapsto> ''20.6.0.0'']])
       = Inr ([(''x'', \<lparr>ty = ''u8'', t_arg = None, arr1 = None, arr2 = None, arg = None,
                        cond = Some ''(A) #OR# (B)'', ver1 = Some ''20.1.0.3'', ver2 = None\<rparr>)], [])
   \<and> niobject_merge ''Foo'' ''x''
        \<lparr>ty = ''u8'', t_arg = None, arr1 = None, arr2 = None, arg = None,
         cond = Some ''B'', ver1 = None, ver2 = Some ''1.0''\<rparr>
        ([(''x'', \<lparr>ty = ''u8'', t_arg = None, arr1 = None, arr2 = None, arg = None,
                   cond = Some ''A'', ver1 = Some ''20.1.0.3'', ver2 = None\<rparr>)], [])
       = ([(''x'', \<lparr>ty = ''u8'', t_arg = None, arr1 = None, arr2 = None, arg = None,
                    cond = Some ''(A) #OR# (B)'', ver1 = Some ''20.1.0.3'', ver2 = None\<rparr>)], [])"
proof -
  let ?c = "[''name'' \<mapsto> ''X'', ''type'' \<mapsto> ''byte'', ''cond'' \<mapsto> ''A'', ''ver1'' \<mapsto> ''20.1.0.3'']"
  let ?f = "[''name'' \<mapsto> ''x'', ''type'' \<mapsto> ''byte'', ''cond'' \<mapsto> ''B'',
             ''ver1'' \<mapsto> ''20.2.0.7'', ''ver2'' \<mapsto> ''20.6.0.0'']"
  let ?old = "\<lparr>ty = ''u8'', t_arg = None, arr1 = None, arr2 = None, arg = None,
               cond = Some ''A'', ver1 = Some ''20.1.0.3'', ver2 = None\<rparr>"
  let ?new = "\<lparr>ty = ''u8'', t_arg = None, arr1 = None, arr2 = None, arg = None,
               cond = Some ''B'', ver1 = Some ''20.2.0.7'', ver2 = Some ''20.6.0.0''\<rparr>"
  let ?stored = "\<lparr>ty = ''u8'', t_arg = None, arr1 = None, arr2 = None, arg = None,
               cond = Some ''(A) #OR# (B)'', ver1 = Some ''20.1.0.3'', ver2 = None\<rparr>"
  have run: "fold_result (niobject_step ''Foo'') ([], []) [?c] = Inr ([(''x'', ?old)], [])"
    by code_simp
  have emit: "should_emit_member ?f = Inr True"
    by code_simp
  have nm: "?f ''name'' = Some ''x''"
    by simp
  have ty: "Type_from_xml ?f = Inr ?new"
    by code_simp
  have x: "convert_field_name ''x'' = ''x''"
    by code_simp
  have old: "map_of [(''x'', ?old)] (convert_field_name ''x'') = Some ?old"
    by (simp add: x)
  have shape: "matches_type ?new ?old"
    by (simp add: matches_type_def)
  have conds: "truthy (cond ?new) \<or> truthy (cond ?old)"
    by (simp add: truthy_def)
  have both: "fold_result (niobject_step ''Foo'') ([], []) ([?c] @ [?f]) = Inr ([(''x'', ?stored)], [])"
    by code_simp
  have indep: "niobject_merge ''Foo'' ''x'' (?new\<lparr>ver1 := None, ver2 := Some ''1.0''\<rparr>)
                 ([(''x'', ?old)], []) = ([(''x'', ?stored)], [])"
    using merge_changes_cond_only [OF run emit nm ty old shape conds, unfolded both x]
    by auto
  then have indep': "niobject_merge ''Foo'' ''x''
        \<lparr>ty = ''u8'', t_arg = None, arr1 = None, arr2 = None, arg = None,
         cond = Some ''B'', ver1 = None, ver2 = Some ''1.0''\<rparr>
        ([(''x'', ?old)], []) = ([(''x'', ?stored)], [])"
    by simp
  show ?thesis
    by (intro conjI) (rule run emit ty both indep')+
qed

lemma compound_step_distinct:
  assumes "distinct (map fst fs)" and "compound_step fs f = Inr fs'"
  shows "distinct (map fst fs')"
  using assms
  by (auto simp: compound_step_def Let_def map_of_eq_None_iff
        split: sum.splits if_splits option.splits)

lemma compound_run_distinct:
  "fold_result compound_step fs0 cs = Inr fs \<Longrightarrow> distinct (map fst fs0) \<Longrightarrow>
     distinct (map fst fs)"
proof (induction cs arbitrary: fs0)
  case Nil
  then show ?case by simp
next
  case (Cons c cs)
  from Cons.prems(1) obtain fs1
    where s: "compound_step fs0 c = Inr fs1" and r: "fold_result compound_step fs1 cs = Inr fs"
    by (auto split: sum.splits)
  from compound_step_distinct [OF Cons.prems(2) s] Cons.IH [OF r] show ?case by simp
qed

text \<open>
  Claim C6, as the code has it. \<open>Compound.from_xml\<close> does not merge. Let it have built the
  dictionary \<open>fs\<close> from the entries before a field \<open>f\<close> that is emitted and has the converted
  name \<open>x\<close>. If \<open>x\<close> is already declared, the dictionary stays as it is, whatever type and
  condition \<open>f\<close> carries; if \<open>x\<close> is new, \<open>f\<close> is stored at the end with its own condition. So
  an entry with two emitted declarations of one name, the first of which has the type
  \<open>t1\<close>, yields exactly one field of that name, with the first declaration's type and
  condition.
\<close>

theorem compound_first_declaration_wins:
  assumes run: "fold_result compound_step [] cs = Inr fs"
    and emit: "should_emit_member f = Inr True"
    and nm: "f ''name'' = Some n"
    and x: "x = convert_field_name n"
  shows "distinct (map fst fs)
   \<and> (map_of fs x \<noteq> None \<longrightarrow> fold_result compound_step [] (cs @ [f]) = Inr fs)
   \<and> (\<forall>t. map_of fs x = None \<and> Type_from_xml f = Inr t \<longrightarrow>
          fold_result compound_step [] (cs @ [f]) = Inr (fs @ [(x, t)]) \<and> cond t = f ''cond'')
   \<and> (\<forall>f1 n1 t1 e c.
          cs = [f1] \<and> should_emit_member f1 = Inr True \<and> f1 ''name'' = Some n1
          \<and> convert_field_name n1 = x \<and> Type_from_xml f1 = Inr t1
          \<and> children e = [f1, f] \<and> Compound_from_xml e = Inr c \<longrightarrow>
          Compound.fields' c = [(x, t1)] \<and> cond t1 = f1 ''cond'')"
proof (intro conjI allI impI)
  show "distinct (map fst fs)"
    using compound_run_distinct [OF run] by simp
  show "fold_result compound_step [] (cs @ [f]) = Inr fs" if "map_of fs x \<noteq> None"
    using that run emit nm x by (simp add: fold_result_append compound_step_def)
  show "fold_result compound_step [] (cs @ [f]) = Inr (fs @ [(x, t)])"
    if "map_of fs x = None \<and> Type_from_xml f = Inr t" for t
    using that run emit nm x by (simp add: fold_result_append compound_step_def)
  show "cond t = f ''cond''" if "map_of fs x = None \<and> Type_from_xml f = Inr t" for t
    using that by (auto simp: Type_from_xml_def split: option.splits sum.splits)
next
  fix f1 n1 t1 e c
  assume h: "cs = [f1] \<and> should_emit_member f1 = Inr True \<and> f1 ''name'' = Some n1
          \<and> convert_field_name n1 = x \<and> Type_from_xml f1 = Inr t1
          \<and> children e = [f1, f] \<and> Compound_from_xml e = Inr c"
  then have one: "fold_result compound_step [] [f1] = Inr [(x, t1)]"
    by (simp add: compound_step_def)
  with h run have fs: "fs = [(x, t1)]" by simp
  have again: "compound_step [(x, t1)] f = Inr [(x, t1)]"
    using emit nm x by (simp add: compound_step_def)
  have two: "fold_result compound_step [] ([f1] @ [f]) = Inr [(x, t1)]"
    unfolding fold_result_append one by (simp add: again)
  show "Compound.fields' c = [(x, t1)]"
    using h two by (auto simp: Compound_from_xml_def split: option.splits sum.splits)
  show "cond t1 = f1 ''cond''"
    using h by (auto simp: Type_from_xml_def split: option.splits sum.splits)
qed

text \<open>Two declarations of \<open>x\<close> with the same shape and the conditions \<open>A\<close> and \<open>B\<close>: the
  compound keeps the condition \<open>A\<close>.\<close>

theorem compound_merge_counterexample:
  "Compound_from_xml
     \<lparr>attrib = [''name'' \<mapsto> ''Foo''], entry_text = None,
      children = [[''name'' \<mapsto> ''x'', ''type'' \<mapsto> ''int'', ''cond'' \<mapsto> ''A''],
                  [''name'' \<mapsto> ''x'', ''type'' \<mapsto> ''int'', ''cond'' \<mapsto> ''B'']]\<rparr>
   = Inr \<lparr>Compound.name = ''Foo'', Compound.doc = [], Compound.generic = False,
          Compound.fields' =
            [(''x'', \<lparr>ty = ''i32'', t_arg = None, arr1 = None, arr2 = None, arg = None,
                      cond = Some ''A'', ver1 = None, ver2 = None\<rparr>)]\<rparr>"
  by code_simp

theorem compound_first_declaration_wins_witness:
  "fold_result compound_step [] [[''name'' \<mapsto> ''x'', ''type'' \<mapsto> ''int'', ''cond'' \<mapsto> ''A'']]
     = Inr [(''x'', \<lparr>ty = ''i32'', t_arg = None, arr1 = None, arr2 = None, arg = None,
                     cond = Some ''A'', ver1 = None, ver2 = None\<rparr>)]
   \<and> should_emit_member [''name'' \<mapsto> ''x'', ''type'' \<mapsto> ''int'', ''cond'' \<mapsto> ''B''] = Inr True
   \<and> ''x'' = convert_field_name ''x''
   \<and> fold_result compound_step []
        ([[''name'' \<mapsto> ''x'', ''type'' \<mapsto> ''int'', ''cond'' \<mapsto> ''A'']]
         @ [[''name'' \<mapsto> ''x'', ''type'' \<mapsto> ''int'', ''cond'' \<mapsto> ''B'']])
     = Inr [(''x'', \<lparr>ty = ''i32'', t_arg = None, arr1 = None, arr2 = None, arg = None,
                     cond = Some ''A'', ver1 = None, ver2 = None\<rparr>)]"
proof -
  let ?f1 = "[''name'' \<mapsto> ''x'', ''type'' \<mapsto> ''int'', ''cond'' \<mapsto> ''A'']"
  let ?f = "[''name'' \<mapsto> ''x'', ''type'' \<mapsto> ''int'', ''cond'' \<mapsto> ''B'']"
  let ?t = "\<lparr>ty = ''i32'', t_arg = None, arr1 = None, arr2 = None, arg = None,
             cond = Some ''A'', ver1 = None, ver2 = None\<rparr>"
  have run: "fold_result compound_step [] [?f1] = Inr [(''x'', ?t)]"
    by code_simp
  have emit: "should_emit_member ?f = Inr True"
    by code_simp
  have nm: "?f ''name'' = Some ''x''"
    by simp
  have x: "''x'' = convert_field_name ''x''"
    by code_simp
  have present: "map_of [(''x'', ?t)] ''x'' \<noteq> None"
    by simp
  have both: "fold_result compound_step [] ([?f1] @ [?f]) = Inr [(''x'', ?t)]"
    using compound_first_declaration_wins [OF run emit nm x] present by blast
  show ?thesis
    by (intro conjI) (rule run emit x both)+
qed

section \<open>Properties of the operator table\<close>

lemma matches_suffix: "(c', s') \<in> set (matches r s c) \<Longrightarrow> suffix s' s"
proof (induction r arbitrary: s c c' s')
  case (Chr k)
  then show ?case by (cases s) (auto split: if_splits simp: suffix_Cons)
next
  case (Star k)
  then show ?case
  proof (induction s)
    case Nil
    then show ?case by simp
  next
    case (Cons x xs)
    then show ?case by (auto split: if_splits simp: suffix_Cons)
  qed
next
  case (Seq r1 r2)
  from Seq.prems obtain c1 s1
    where "(c1, s1) \<in> set (matches r1 s c)" "(c', s') \<in> set (matches r2 s1 c1)"
    by auto
  then show ?case using Seq.IH suffix_order.trans by blast
next
  case (Alt r1 r2)
  then show ?case by auto
next
  case (Group n r)
  then show ?case by auto
qed

lemma matches_needs_literal:
  assumes "l \<notin> set s"
  shows "matches (Seq g (Seq (Chr (Lit l)) r)) s c = []"
proof -
  have "matches (Seq (Chr (Lit l)) r) s' c' = []" if "(c', s') \<in> set (matches g s c)" for c' s'
  proof -
    from matches_suffix [OF that] assms have "l \<notin> set s'"
      by (auto simp: suffix_def)
    then show ?thesis by (cases s') auto
  qed
  then show ?thesis by auto
qed

lemma search_needs_literal:
  "l \<notin> set s \<Longrightarrow> search (Seq g (Seq (Chr (Lit l)) r)) s = None"
  by (induction s) (simp_all add: matches_needs_literal del: matches.simps)

lemma search_unfold:
  "search r s = (case matches r s Map.empty of
                   [] \<Rightarrow> (case s of [] \<Rightarrow> None | _ # t \<Rightarrow> search r t)
                 | (c, _) # _ \<Rightarrow> Some c)"
  by (cases s) (auto split: list.splits)

lemma matches_star_prefix:
  "\<forall>z\<in>set u. in_cls k z \<Longrightarrow>
     matches (Star k) (u @ v) c = matches (Star k) v c @ map (\<lambda>t. (c, t @ v)) (tl (suffixes u))"
proof (induction u)
  case Nil
  then show ?case by simp
next
  case (Cons z u)
  have "suffixes u \<noteq> []" by (cases u) auto
  with Cons show ?case by simp
qed

lemma matches_star_all:
  "\<forall>z\<in>set u. in_cls k z \<Longrightarrow> matches (Star k) u c = map (\<lambda>t. (c, t)) (suffixes u)"
proof -
  assume a: "\<forall>z\<in>set u. in_cls k z"
  have "suffixes u = [] # tl (suffixes u)" by (induction u) auto
  then have "map (\<lambda>t. (c, t)) (suffixes u) = (c, []) # map (\<lambda>t. (c, t)) (tl (suffixes u))"
    by (metis list.simps(9))
  with matches_star_prefix [OF a, of "[]" c] show ?thesis by simp
qed

lemma concat_map_skip:
  "(\<forall>a\<in>set as. f a = []) \<Longrightarrow> concat (map f (as @ b # bs)) = f b @ concat (map f bs)"
  by (induction as) auto

lemma EXPR_RE_3_tail: "EXPR_RE_3 = Seq (Group 1 (Star Dot)) RE_3_TAIL"
  by (simp add: EXPR_RE_3_def RE_3_TAIL_def)

lemma tl_suffixes: "t \<in> set (tl (suffixes u)) \<Longrightarrow> t \<noteq> [] \<and> suffix t u"
proof (induction u)
  case Nil
  then show ?case by simp
next
  case (Cons a u)
  have "suffixes u \<noteq> []" by (cases u) auto
  with Cons show ?case by (auto simp: suffix_Cons)
qed

lemma search_re3:
  assumes dot: "\<forall>z\<in>set (x @ a # w). z \<noteq> CHR 0x0A"
    and skip: "\<forall>t\<in>set (suffixes w). \<forall>c. matches RE_3_TAIL t c = []"
    and hit: "matches RE_3_TAIL (a # w) [1 \<mapsto> x] = (m, rest) # others"
  shows "search EXPR_RE_3 (x @ a # w) = Some m"
proof -
  let ?s = "x @ a # w"
  let ?H = "\<lambda>t. matches RE_3_TAIL t [1 \<mapsto> take (length ?s - length t) ?s]"
  have star: "matches (Star Dot) ?s Map.empty = map (\<lambda>t. (Map.empty, t)) (suffixes ?s)"
    using matches_star_all [of ?s Dot Map.empty] dot by simp
  have "matches EXPR_RE_3 ?s Map.empty = concat (map ?H (suffixes ?s))"
    unfolding EXPR_RE_3_tail matches.simps star by (simp add: comp_def)
  also have "suffixes ?s = suffixes w @ (a # w) # map (\<lambda>t. t @ a # w) (tl (suffixes x))"
    by (simp add: suffixes_append)
  also have "concat (map ?H (suffixes w @ (a # w) # map (\<lambda>t. t @ a # w) (tl (suffixes x))))
      = ?H (a # w) @ concat (map ?H (map (\<lambda>t. t @ a # w) (tl (suffixes x))))"
    using skip by (intro concat_map_skip) simp
  also have "?H (a # w) = (m, rest) # others"
    using hit by simp
  finally obtain others' where "matches EXPR_RE_3 ?s Map.empty = (m, rest) # others'"
    by auto
  then show ?thesis
    by (simp add: search_unfold [of EXPR_RE_3 ?s])
qed

lemma re3_tail_word: "list_all is_word t \<Longrightarrow> matches RE_3_TAIL t c = []"
  by (cases t) (auto simp: RE_3_TAIL_def is_word_def)

lemma re3_tail_nonspace: "z \<noteq> CHR '' '' \<Longrightarrow> matches RE_3_TAIL (z # t) c = []"
  by (simp add: RE_3_TAIL_def)

lemma re3_tail_space_word:
  "is_word z \<Longrightarrow> matches RE_3_TAIL (CHR '' '' # z # t) c = []"
  by (auto simp: RE_3_TAIL_def OP_RE_def is_word_def)

lemma re3_skip:
  assumes op: "CHR '' '' \<notin> set op" and y: "wordy y"
  shows "\<forall>t\<in>set (suffixes (op @ CHR '' '' # y)). \<forall>c. matches RE_3_TAIL t c = []"
proof (intro ballI allI)
  fix t c
  assume "t \<in> set (suffixes (op @ CHR '' '' # y))"
  then consider "t \<in> set (suffixes y)" | "t = CHR '' '' # y"
    | t' where "t' \<in> set (tl (suffixes op))" "t = t' @ CHR '' '' # y"
    by (auto simp: suffixes_append)
  then show "matches RE_3_TAIL t c = []"
  proof cases
    case 1
    then have "suffix t y" by (simp add: in_set_suffixes)
    with y have "list_all is_word t"
      by (auto simp: wordy_def suffix_def list_all_iff)
    then show ?thesis by (rule re3_tail_word)
  next
    case 2
    from y obtain z zs where "y = z # zs" "is_word z"
      by (cases y) (auto simp: wordy_def)
    with 2 show ?thesis by (simp add: re3_tail_space_word)
  next
    case 3
    from tl_suffixes [OF 3(1)] obtain z zs where "t' = z # zs" "z \<in> set op"
      by (cases t') (auto simp: suffix_def)
    moreover from this op have "z \<noteq> CHR '' ''" by auto
    ultimately show ?thesis using 3(2) by (simp add: re3_tail_nonspace)
  qed
qed

lemma RE_3_TAIL_last: "RE_3_TAIL = Seq (Chr (Lit (CHR '' ''))) (Seq (Group 2 OP_RE) RE_3_LAST)"
  by (simp add: RE_3_TAIL_def RE_3_LAST_def)

lemma is_word_operator_chars:
  "is_word (CHR ''A'')" "is_word (CHR ''D'')" "is_word (CHR ''S'')" "is_word (CHR ''U'')" "is_word (CHR ''B'')" "is_word (CHR ''M'')" "is_word (CHR ''L'')" "is_word (CHR ''I'')" "is_word (CHR ''V'')" "is_word (CHR ''N'')" "is_word (CHR ''O'')" "is_word (CHR ''R'')" "is_word (CHR ''T'')" "is_word (CHR ''G'')" "is_word (CHR ''E'')" "is_word (CHR ''Q'')" "is_word (CHR ''H'')"
  "\<not> is_word (CHR ''#'')" "\<not> is_word (CHR ''+'')" "\<not> is_word (CHR ''-'')" "\<not> is_word (CHR ''*'')" "\<not> is_word (CHR ''/'')" "\<not> is_word (CHR ''&'')" "\<not> is_word (CHR ''|'')" "\<not> is_word (CHR ''<'')" "\<not> is_word (CHR ''>'')" "\<not> is_word (CHR ''='')" "\<not> is_word (CHR ''!'')" "\<not> is_word (CHR '' '')"
  by (simp_all add: is_word_def)

lemma is_word_not_newline: "is_word z \<Longrightarrow> z \<noteq> CHR 0x0A"
  by (auto simp: is_word_def)

lemma is_word_not_space: "is_word z \<Longrightarrow> z \<noteq> CHR '' ''"
  by (auto simp: is_word_def)

lemma re3_last_hit:
  assumes "list_all is_word y"
  shows "matches RE_3_LAST (CHR '' '' # y) c
           = (c(3 \<mapsto> y), []) # map (\<lambda>t. (c(3 \<mapsto> take (length y - length t) y), t)) (tl (suffixes y))"
proof -
  have "\<forall>z\<in>set y. in_cls Dot z"
    using assms is_word_not_newline by (auto simp: list_all_iff)
  from matches_star_all [OF this]
  have "matches (Star Dot) y c = map (\<lambda>t. (c, t)) (suffixes y)" .
  moreover have "suffixes y = [] # tl (suffixes y)" by (induction y) auto
  ultimately have "matches (Group 3 (Star Dot)) y c
      = map (\<lambda>t. (c(3 \<mapsto> take (length y - length t) y), t)) ([] # tl (suffixes y))"
    by (simp add: comp_def)
  then show ?thesis by (simp add: RE_3_LAST_def)
qed

lemma re3_last_miss: "z \<noteq> CHR '' '' \<Longrightarrow> matches RE_3_LAST (z # t) c = []"
  by (simp add: RE_3_LAST_def)

lemma spellings_chars:
  assumes "op \<in> spellings"
  shows "CHR '' '' \<notin> set op" "CHR ''('' \<notin> set op" "CHR '')'' \<notin> set op" "CHR 0x0A \<notin> set op"
  using assms by (auto simp: spellings_def OPERATORS_def)

lemma spellings_head: "op \<in> spellings \<Longrightarrow> \<exists>ch\<in>set op. \<not> is_word ch"
  by (auto simp: spellings_def OPERATORS_def is_word_operator_chars)

lemma re3_hit_all:
  assumes "is_word z" "list_all is_word zs"
  shows "list_all
           (\<lambda>op. \<exists>others. matches RE_3_TAIL (CHR '' '' # op @ CHR '' '' # z # zs) c
                             = (c(2 \<mapsto> op, 3 \<mapsto> z # zs), []) # others)
           (map fst OPERATORS @ map snd OPERATORS)"
  using assms is_word_not_space [OF assms(1)]
  by (simp add: OPERATORS_def RE_3_TAIL_last OP_RE_def is_word_operator_chars re3_last_hit
        re3_last_miss)

lemma re3_hit:
  assumes "op \<in> spellings" "is_word z" "list_all is_word zs"
  shows "\<exists>others. matches RE_3_TAIL (CHR '' '' # op @ CHR '' '' # z # zs) c
      = (c(2 \<mapsto> op, 3 \<mapsto> z # zs), []) # others"
proof -
  have "op \<in> set (map fst OPERATORS @ map snd OPERATORS)"
    using assms(1) by (simp add: spellings_def)
  with re3_hit_all [OF assms(2,3), of c] show ?thesis
    unfolding list_all_iff by blast
qed

lemma find_shape_binary:
  assumes op: "op \<in> spellings" and x: "wordy x" and y: "wordy y"
  shows "find_shape (x @ CHR '' '' # op @ CHR '' '' # y)
           = Some \<lparr>unary = None, left = Some x, oper = Some op, right = Some y\<rparr>"
proof -
  let ?s = "x @ CHR '' '' # op @ CHR '' '' # y"
  have wx: "\<forall>z\<in>set x. is_word z" and wy: "\<forall>z\<in>set y. is_word z"
    using x y by (auto simp: wordy_def list_all_iff)
  have np: "\<not> is_word (CHR ''('')" "\<not> is_word (CHR 0x0A)"
    by (simp_all add: is_word_def)
  have paren: "CHR ''('' \<notin> set ?s"
    using wx wy np spellings_chars [OF op] by auto
  have dot: "\<forall>z\<in>set ?s. z \<noteq> CHR 0x0A"
    using wx wy np spellings_chars [OF op] by auto
  have r1: "search EXPR_RE_1 ?s = None"
    unfolding EXPR_RE_1_def seqs.simps by (rule search_needs_literal [OF paren])
  have r2: "search EXPR_RE_2 ?s = None"
    unfolding EXPR_RE_2_def seqs.simps by (rule search_needs_literal [OF paren])
  from y obtain z zs where yz: "y = z # zs" "is_word z" "list_all is_word zs"
    by (cases y) (auto simp: wordy_def)
  from re3_hit [OF op yz(2,3), of "[1 \<mapsto> x]"] obtain others
    where hit: "matches RE_3_TAIL (CHR '' '' # op @ CHR '' '' # y) [1 \<mapsto> x]
                  = ([1 \<mapsto> x, 2 \<mapsto> op, 3 \<mapsto> y], []) # others"
    unfolding yz(1) by blast
  have r3: "search EXPR_RE_3 ?s = Some [1 \<mapsto> x, 2 \<mapsto> op, 3 \<mapsto> y]"
    by (rule search_re3 [OF dot re3_skip [OF spellings_chars(1) [OF op] y] hit])
  show ?thesis
    by (simp add: find_shape_def r1 r2 r3)
qed

lemma wordy_no_operator: "wordy x \<Longrightarrow> \<not> contains_any_operator x"
proof
  assume x: "wordy x" and "contains_any_operator x"
  then obtain op where op: "op \<in> spellings" "sublist op x"
    by (force simp: contains_any_operator_def list_ex_iff spellings_def contains_def)
  from spellings_head [OF op(1)] obtain ch where "ch \<in> set op" "\<not> is_word ch" by blast
  moreover from op(2) have "set op \<subseteq> set x" by (rule set_mono_sublist)
  ultimately show False using x by (auto simp: wordy_def list_all_iff)
qed

lemma parse_leaf: "wordy x \<Longrightarrow> parse_expression x = Inr (leaf x)"
proof -
  assume x: "wordy x"
  have "\<not> is_word (CHR ''('')" "\<not> is_word (CHR '')'')"
    by (simp_all add: is_word_def)
  with x have "CHR ''('' \<notin> set x" "CHR '')'' \<notin> set x"
    by (auto simp: wordy_def list_all_iff)
  with wordy_no_operator [OF x] show ?thesis
    by (subst parse_expression.simps) (simp add: leaf_def)
qed

lemma replace_chr_removes: "old \<notin> set new \<Longrightarrow> old \<notin> set (replace_chr s old new)"
  by (induction s) (auto simp: replace_chr_def)

lemma replace_chr_subset: "set (replace_chr s old []) \<subseteq> set s"
  by (induction s) (auto simp: replace_chr_def)

lemma leaf_no_space: "wordy x \<Longrightarrow> CHR '' '' \<notin> set (leaf x)"
proof -
  assume x: "wordy x"
  have nw: "\<not> is_word (CHR ''#'')" "\<not> is_word (CHR ''.'')" "\<not> is_word (CHR '' '')"
    by (simp_all add: is_word_def)
  with x have a: "x \<noteq> ''#ARG#''" "CHR ''.'' \<notin> set x" "CHR '' '' \<notin> set x"
    by (auto simp: wordy_def list_all_iff)
  let ?n = "replace_chr (replace_chr (lower x) (CHR '' '') ''_'') (CHR '':'') []"
  have "CHR '' '' \<notin> set (replace_chr (lower x) (CHR '' '') ''_'')"
    by (rule replace_chr_removes) simp
  then have "CHR '' '' \<notin> set ?n"
    using replace_chr_subset by fastforce
  then show ?thesis
    using a by (auto simp: leaf_def convert_field_name_def Let_def)
qed

lemma paren_leaf: "wordy x \<Longrightarrow> paren_if_spaced (leaf x) = leaf x"
  using leaf_no_space by (simp add: paren_if_spaced_def)

lemma contains_operator_binary:
  "(k, v) \<in> set OPERATORS \<Longrightarrow> op = k \<or> op = v \<Longrightarrow>
     contains_any_operator (x @ CHR '' '' # op @ CHR '' '' # y)"
proof -
  assume kv: "(k, v) \<in> set OPERATORS" and op: "op = k \<or> op = v"
  have "sublist op (x @ CHR '' '' # op @ CHR '' '' # y)"
    unfolding sublist_def by (intro exI [of _ "x @ '' ''"] exI [of _ "CHR '' '' # y"]) simp
  with kv op show ?thesis
    by (auto simp: contains_any_operator_def list_ex_iff contains_def)
qed

lemma operator_table:
  "list_all (\<lambda>(k, v). operators_get k = v \<and> operators_get v = v
                       \<and> (strip k = ''|'') = False \<and> (strip v = ''|'') = (k = ''#BITOR#''))
     OPERATORS"
  by code_simp

lemma parse_binary:
  assumes kv: "(k, v) \<in> set OPERATORS" and op: "op = k \<or> op = v"
    and x: "wordy x" and y: "wordy y"
  shows "parse_expression (x @ CHR '' '' # op @ CHR '' '' # y)
           = (if strip op = ''|'' then Inr (leaf x)
              else Inr (leaf x @ '' '' @ operators_get op @ '' '' @ leaf y))"
proof -
  have sp: "op \<in> spellings"
    using kv op by (force simp: spellings_def)
  note sh = find_shape_binary [OF sp x y]
  show ?thesis
    by (subst parse_expression.simps)
      (simp add: contains_operator_binary [OF kv op] sh parse_leaf [OF x] parse_leaf [OF y]
         paren_leaf [OF x] paren_leaf [OF y])
qed

text \<open>
  Claim C8, as the code has it. For identifiers or numbers \<open>x\<close> and \<open>y\<close> and every row of the
  operator table other than \<open>#BITOR#\<close>, the symbolic form \<open>x OP y\<close> and the native form \<open>x op y\<close>
  are parsed to the same text: the two normalised operands joined by the native spelling.
  For \<open>#BITOR#\<close> the forms differ: \<open>x #BITOR# y\<close> becomes the two operands joined by \<open>|\<close>, while
  \<open>x | y\<close> becomes the left operand alone.
\<close>

theorem operator_spellings:
  assumes "(tok, native) \<in> set OPERATORS" and "wordy x" and "wordy y"
  shows "(tok \<noteq> ''#BITOR#'' \<longrightarrow>
            parse_expression (x @ '' '' @ tok @ '' '' @ y)
              = Inr (leaf x @ '' '' @ native @ '' '' @ leaf y)
            \<and> parse_expression (x @ '' '' @ native @ '' '' @ y)
              = parse_expression (x @ '' '' @ tok @ '' '' @ y))
       \<and> (tok = ''#BITOR#'' \<longrightarrow>
            parse_expression (x @ '' '' @ tok @ '' '' @ y) = Inr (leaf x @ '' | '' @ leaf y)
            \<and> parse_expression (x @ '' | '' @ y) = Inr (leaf x))"
proof -
  from operator_table assms(1)
  have tab: "operators_get tok = native" "operators_get native = native"
    "strip tok \<noteq> ''|''" "(strip native = ''|'') = (tok = ''#BITOR#'')"
    unfolding list_all_iff by auto
  have bitor: "native = ''|''" if "tok = ''#BITOR#''"
    using assms(1) that by (simp add: OPERATORS_def)
  have sym: "parse_expression (x @ '' '' @ tok @ '' '' @ y)
               = Inr (leaf x @ '' '' @ native @ '' '' @ leaf y)"
    using parse_binary [OF assms(1) _ assms(2,3), of tok] tab by simp
  have nat: "parse_expression (x @ '' '' @ native @ '' '' @ y)
               = (if tok = ''#BITOR#'' then Inr (leaf x)
                  else Inr (leaf x @ '' '' @ native @ '' '' @ leaf y))"
    using parse_binary [OF assms(1) _ assms(2,3), of native] tab by simp
  show ?thesis
    using sym nat bitor by auto
qed

text \<open>\<open>a #BITOR# b\<close> becomes \<open>a | b\<close>, but \<open>a | b\<close> becomes \<open>a\<close>: the two spellings of bitwise or
  are not interchangeable.\<close>

theorem bitor_spellings_counterexample:
  "parse_expression ''a #BITOR# b'' = Inr ''a | b''
   \<and> parse_expression ''a | b'' = Inr ''a''
   \<and> parse_expression ''a #BITOR# b'' \<noteq> parse_expression ''a | b''"
  by code_simp

theorem operator_spellings_witness:
  "(''#AND#'', ''&&'') \<in> set OPERATORS \<and> wordy ''fizz'' \<and> wordy ''buzz''
   \<and> parse_expression (''fizz'' @ '' '' @ ''#AND#'' @ '' '' @ ''buzz'') = Inr ''fizz && buzz''
   \<and> parse_expression (''fizz'' @ '' '' @ ''&&'' @ '' '' @ ''buzz'') = Inr ''fizz && buzz''
   \<and> (''#BITOR#'', ''|'') \<in> set OPERATORS \<and> wordy ''Flags'' \<and> wordy ''16''
   \<and> parse_expression (''Flags'' @ '' '' @ ''#BITOR#'' @ '' '' @ ''16'') = Inr ''flags | 16''
   \<and> parse_expression (''Flags'' @ '' | '' @ ''16'') = Inr ''flags''"
proof -
  have a: "(''#AND#'', ''&&'') \<in> set OPERATORS" "(''#BITOR#'', ''|'') \<in> set OPERATORS"
    by (simp_all add: OPERATORS_def)
  have w: "wordy ''fizz''" "wordy ''buzz''" "wordy ''Flags''" "wordy ''16''"
    by code_simp+
  have l: "leaf ''fizz'' = ''fizz''" "leaf ''buzz'' = ''buzz''" "leaf ''Flags'' = ''flags''"
    "leaf ''16'' = ''16''"
    by code_simp+
  show ?thesis
    using a w operator_spellings [OF a(1) w(1,2)] operator_spellings [OF a(2) w(3,4)]
    by (simp add: l)
qed

end
